theory Spec2Isabelle
  imports Complex_Main "HOL-Library.Monad_Syntax"
begin

section \<open>Floating-point values\<close>

text \<open>
  The scanner works on numpy \<open>float64\<close> arrays. A value is modelled as a finite real
  number, one of the two infinities, or not-a-number. Comparisons and \<open>abs\<close> are exact
  on floats, so everything the Region Caller does with a score is represented exactly.
  Arithmetic on finite values is taken exact: rounding, overflow to infinity and the sign
  of zero are not represented, so the sums and quotients of the model are those of the
  source only where \<open>float64\<close> arithmetic is exact. What the general statements below use of
  the arithmetic is the propagation of not-a-number, which is exact in \<open>float64\<close>; none of
  them rests on the value of a sum of finite numbers.
\<close>

datatype fval = Fin real | PInf | NInf | NaN

fun fneg :: "fval \<Rightarrow> fval" where
  "fneg (Fin a) = Fin (- a)"
| "fneg PInf = NInf"
| "fneg NInf = PInf"
| "fneg NaN = NaN"

fun fabs :: "fval \<Rightarrow> fval" where
  "fabs (Fin a) = Fin \<bar>a\<bar>"
| "fabs PInf = PInf"
| "fabs NInf = PInf"
| "fabs NaN = NaN"

fun fadd :: "fval \<Rightarrow> fval \<Rightarrow> fval" where
  "fadd NaN y = NaN"
| "fadd x NaN = NaN"
| "fadd (Fin a) (Fin b) = Fin (a + b)"
| "fadd PInf NInf = NaN"
| "fadd NInf PInf = NaN"
| "fadd PInf y = PInf"
| "fadd NInf y = NInf"
| "fadd (Fin a) PInf = PInf"
| "fadd (Fin a) NInf = NInf"

definition fsub :: "fval \<Rightarrow> fval \<Rightarrow> fval" where
  "fsub x y = fadd x (fneg y)"

fun fdiv :: "fval \<Rightarrow> fval \<Rightarrow> fval" where
  "fdiv NaN y = NaN"
| "fdiv x NaN = NaN"
| "fdiv (Fin a) (Fin b) =
     (if b = 0 then (if a = 0 then NaN else if 0 < a then PInf else NInf)
      else Fin (a / b))"
| "fdiv (Fin a) PInf = Fin 0"
| "fdiv (Fin a) NInf = Fin 0"
| "fdiv PInf (Fin b) = (if 0 \<le> b then PInf else NInf)"
| "fdiv NInf (Fin b) = (if 0 \<le> b then NInf else PInf)"
| "fdiv PInf y = NaN"
| "fdiv NInf y = NaN"

text \<open>\<open>x > y\<close> on floats: false as soon as one side is not-a-number.\<close>

fun fgt :: "fval \<Rightarrow> fval \<Rightarrow> bool" where
  "fgt NaN y = False"
| "fgt x NaN = False"
| "fgt (Fin a) (Fin b) = (b < a)"
| "fgt PInf PInf = False"
| "fgt PInf y = True"
| "fgt NInf y = False"
| "fgt (Fin a) PInf = False"
| "fgt (Fin a) NInf = True"


section \<open>Region Caller: \<open>call_regions\<close>\<close>

text \<open>
  \<open>idx = np.where(np.abs(scores) > threshold)[0]\<close>: the indices of the selected
  windows, ascending.
\<close>

fun where_loop :: "nat \<Rightarrow> fval list \<Rightarrow> fval \<Rightarrow> int list" where
  "where_loop i [] threshold = []"
| "where_loop i (x # xs) threshold =
     (if fgt (fabs x) threshold then int i # where_loop (Suc i) xs threshold
      else where_loop (Suc i) xs threshold)"

definition where_above :: "fval list \<Rightarrow> fval \<Rightarrow> int list" where
  "where_above scores threshold = where_loop 0 scores threshold"

text \<open>
  The loop \<open>for i in idx[1:]\<close> that compresses consecutive indices. The state is the
  list \<open>regions\<close> and the variables \<open>start\<close> and \<open>prev\<close>.
\<close>

fun compress_loop ::
  "(int \<times> int) list \<Rightarrow> int \<Rightarrow> int \<Rightarrow> int list \<Rightarrow> (int \<times> int) list \<times> int \<times> int" where
  "compress_loop regions start prev [] = (regions, start, prev)"
| "compress_loop regions start prev (i # rest) =
     (if i = prev + 1 then compress_loop regions start i rest
      else compress_loop (regions @ [(start, prev)]) i i rest)"

text \<open>Lines 178 to 186: the runs of a non-empty index list, the tail run appended.\<close>

definition compress :: "int list \<Rightarrow> (int \<times> int) list" where
  "compress idx =
     (case idx of
        [] \<Rightarrow> []
      | i0 # rest \<Rightarrow>
          (case compress_loop [] i0 i0 rest of
             (regions, start, prev) \<Rightarrow> regions @ [(start, prev)]))"

text \<open>
  The loop \<open>for s, e in regions[1:]\<close> that merges runs. The state is the list
  \<open>merged\<close> and the running region \<open>cur_s\<close>, \<open>cur_e\<close>.
\<close>

fun merge_loop ::
  "int \<Rightarrow> int \<Rightarrow> (int \<times> int) list \<Rightarrow> int \<Rightarrow> int \<Rightarrow> (int \<times> int) list
     \<Rightarrow> (int \<times> int) list \<times> int \<times> int" where
  "merge_loop min_length merge_distance merged cur_s cur_e [] = (merged, cur_s, cur_e)"
| "merge_loop min_length merge_distance merged cur_s cur_e ((s, e) # rest) =
     (if s - cur_e \<le> merge_distance
      then merge_loop min_length merge_distance merged cur_s e rest
      else merge_loop min_length merge_distance
             (if cur_e - cur_s + 1 \<ge> min_length then merged @ [(cur_s, cur_e)] else merged)
             s e rest)"

text \<open>
  Lines 188 to 199: merge and filter. The source reaches them with a non-empty
  \<open>regions\<close> only; \<open>regions[0]\<close> on an empty list would raise, which is \<open>None\<close> here.
\<close>

definition merge_filter :: "int \<Rightarrow> int \<Rightarrow> (int \<times> int) list \<Rightarrow> (int \<times> int) list option" where
  "merge_filter min_length merge_distance regions =
     (case regions of
        [] \<Rightarrow> None
      | (s0, e0) # rest \<Rightarrow>
          (case merge_loop min_length merge_distance [] s0 e0 rest of
             (merged, cur_s, cur_e) \<Rightarrow>
               Some (if cur_e - cur_s + 1 \<ge> min_length then merged @ [(cur_s, cur_e)]
                     else merged)))"

text \<open>The body of \<open>call_regions\<close> after the selection, on the index array \<open>idx\<close>.\<close>

definition call_regions_idx :: "int list \<Rightarrow> int \<Rightarrow> int \<Rightarrow> (int \<times> int) list option" where
  "call_regions_idx idx min_length merge_distance =
     (if idx = [] then Some []
      else merge_filter min_length merge_distance (compress idx))"

definition call_regions :: "fval list \<Rightarrow> fval \<Rightarrow> int \<Rightarrow> int \<Rightarrow> (int \<times> int) list option" where
  "call_regions scores threshold min_length merge_distance =
     call_regions_idx (where_above scores threshold) min_length merge_distance"

subsection \<open>The two loops as recursive functions on their input\<close>

text \<open>
  The proofs below describe what each loop computes without its accumulator.
  \<open>runs_from\<close> is the list of runs the compression loop ends with, the open run
  included. \<open>closed_from\<close> is the sweep of the merge loop alone: the regions it closes,
  with the same test \<open>s - cur_e \<le> merge_distance\<close>, the last running region included and
  no length test applied; \<open>closed_regions\<close> starts it on the first run, as line 189 does.
  \<open>long_enough\<close> is the length test of lines 194 and 197.
\<close>

fun runs_from :: "int \<Rightarrow> int \<Rightarrow> int list \<Rightarrow> (int \<times> int) list" where
  "runs_from s p [] = [(s, p)]"
| "runs_from s p (i # rest) =
     (if i = p + 1 then runs_from s i rest else (s, p) # runs_from i i rest)"

fun closed_from :: "int \<Rightarrow> int \<Rightarrow> int \<Rightarrow> (int \<times> int) list \<Rightarrow> (int \<times> int) list" where
  "closed_from md cs ce [] = [(cs, ce)]"
| "closed_from md cs ce ((s, e) # rest) =
     (if s - ce \<le> md then closed_from md cs e rest else (cs, ce) # closed_from md s e rest)"

definition closed_regions :: "int \<Rightarrow> (int \<times> int) list \<Rightarrow> (int \<times> int) list" where
  "closed_regions md runs = (case runs of [] \<Rightarrow> [] | (s, e) # rest \<Rightarrow> closed_from md s e rest)"

definition long_enough :: "int \<Rightarrow> int \<times> int \<Rightarrow> bool" where
  "long_enough ml r = (ml \<le> snd r - fst r + 1)"

definition apart :: "int \<times> int \<Rightarrow> int \<times> int \<Rightarrow> bool" where
  "apart x y = (snd x + 2 \<le> fst y)"

definition beyond :: "int \<Rightarrow> int \<times> int \<Rightarrow> int \<times> int \<Rightarrow> bool" where
  "beyond md x y = (snd x + 2 \<le> fst y \<and> md < fst y - snd x)"

section \<open>Arrays\<close>

text \<open>
  A two-dimensional array of shape \<open>(n_bases, n_tracks)\<close> is the list of its rows; every
  row of an array has the same length. A one-dimensional array is a list. An array with
  no rows does not record its number of columns: \<open>n_cols\<close> is \<open>0\<close> for it, where numpy
  keeps the \<open>t\<close> of a shape \<open>(0, t)\<close>. \<open>compute_window_scores\<close> reads the number of columns
  of such an array only when \<open>window_size \<le> 0\<close>, which no statement below covers.
\<close>

type_synonym matrix = "fval list list"

definition n_cols :: "matrix \<Rightarrow> nat" where
  "n_cols m = (case m of [] \<Rightarrow> 0 | r # _ \<Rightarrow> length r)"

definition is_matrix :: "nat \<Rightarrow> nat \<Rightarrow> matrix \<Rightarrow> bool" where
  "is_matrix n t m = (length m = n \<and> list_all (\<lambda>r. length r = t) m)"

text \<open>A bound of a slice \<open>xs[lo:hi]\<close> as Python normalises it for a sequence of length \<open>n\<close>.\<close>

definition py_index :: "int \<Rightarrow> int \<Rightarrow> nat" where
  "py_index n i = nat (if i < 0 then max 0 (i + n) else min i n)"

definition slice :: "'a list \<Rightarrow> int \<Rightarrow> int \<Rightarrow> 'a list" where
  "slice xs lo hi =
     (let n = int (length xs); a = py_index n lo; b = py_index n hi
      in take (b - a) (drop a xs))"

text \<open>
  An elementwise operation on two arrays with the same number of columns. numpy
  broadcasts an operand that has one row and raises \<open>ValueError\<close> (here \<open>None\<close>) when
  the numbers of rows differ otherwise.
\<close>

definition np_binop :: "(fval \<Rightarrow> fval \<Rightarrow> fval) \<Rightarrow> matrix \<Rightarrow> matrix \<Rightarrow> matrix option" where
  "np_binop f A B =
     (if length A = length B then Some (map2 (map2 f) A B)
      else if length A = 1 then Some (map (\<lambda>b. map2 f (hd A) b) B)
      else if length B = 1 then Some (map (\<lambda>a. map2 f a (hd B)) A)
      else None)"

definition np_scalar :: "(fval \<Rightarrow> fval) \<Rightarrow> matrix \<Rightarrow> matrix" where
  "np_scalar f A = map (map f) A"

text \<open>\<open>np.cumsum(A, axis=0)\<close>: the running sum of the rows.\<close>

fun cumsum_from :: "fval list \<Rightarrow> matrix \<Rightarrow> matrix" where
  "cumsum_from acc [] = []"
| "cumsum_from acc (r # rs) = map2 fadd acc r # cumsum_from (map2 fadd acc r) rs"

definition np_cumsum :: "matrix \<Rightarrow> matrix" where
  "np_cumsum A = (case A of [] \<Rightarrow> [] | r # rs \<Rightarrow> r # cumsum_from r rs)"

text \<open>
  \<open>np.vstack([np.zeros((1, n_tracks)), vals])\<close>: raises \<open>ValueError\<close> when \<open>vals\<close>
  has another number of columns.
\<close>

definition vstack_zeros :: "nat \<Rightarrow> matrix \<Rightarrow> matrix option" where
  "vstack_zeros n_tracks vals =
     (if list_all (\<lambda>r. length r = n_tracks) vals
      then Some (replicate n_tracks (Fin 0) # vals) else None)"

section \<open>Window Score Computer: \<open>compute_window_scores\<close>\<close>

definition compute_window_scores ::
  "matrix \<Rightarrow> matrix \<Rightarrow> int \<Rightarrow> int \<Rightarrow> int \<Rightarrow> fval \<Rightarrow> matrix option" where
  "compute_window_scores alt_vals ref_vals start_idx end_idx window_size epsilon =
     (let n_bases = int (length alt_vals);
          n_tracks = n_cols alt_vals;
          start_idx' = (if start_idx < 0 then 0 else start_idx);
          end_idx' = (if end_idx > n_bases then n_bases else end_idx);
          n_windows = end_idx' - start_idx' - window_size + 1
      in if n_windows \<le> 0 then Some []
         else do {
           alt0 \<leftarrow> vstack_zeros n_tracks alt_vals;
           ref0 \<leftarrow> vstack_zeros n_tracks ref_vals;
           let alt_cs = np_cumsum alt0;
           let ref_cs = np_cumsum ref0;
           a \<leftarrow> np_binop fsub
                 (slice alt_cs (start_idx' + window_size) (start_idx' + window_size + n_windows))
                 (slice alt_cs start_idx' (start_idx' + n_windows));
           r \<leftarrow> np_binop fsub
                 (slice ref_cs (start_idx' + window_size) (start_idx' + window_size + n_windows))
                 (slice ref_cs start_idx' (start_idx' + n_windows));
           let a' = np_scalar (\<lambda>x. fdiv x (Fin (of_int window_size))) a;
           let r' = np_scalar (\<lambda>x. fdiv x (Fin (of_int window_size))) r;
           q \<leftarrow> np_binop fdiv a' (np_scalar (\<lambda>x. fadd x epsilon) r');
           Some (np_scalar (\<lambda>x. fsub x (Fin 1)) q)
         })"

text \<open>
  The definition of a window score in the words of the specification: the mean of
  the alternate signal over the window of \<open>w\<close> samples starting at \<open>k\<close>, divided by the
  mean of the reference signal over the same window plus \<open>epsilon\<close>, minus one.
\<close>

definition fsum :: "fval list \<Rightarrow> fval" where
  "fsum xs = foldl fadd (Fin 0) xs"

definition column :: "nat \<Rightarrow> matrix \<Rightarrow> fval list" where
  "column c m = map (\<lambda>r. r ! c) m"

definition window_mean :: "matrix \<Rightarrow> nat \<Rightarrow> nat \<Rightarrow> nat \<Rightarrow> fval" where
  "window_mean m c k w = fdiv (fsum (take w (drop k (column c m)))) (Fin (real w))"

definition naive_window_score :: "matrix \<Rightarrow> matrix \<Rightarrow> nat \<Rightarrow> nat \<Rightarrow> fval \<Rightarrow> nat \<Rightarrow> fval" where
  "naive_window_score alt_vals ref_vals k w epsilon c =
     fsub (fdiv (window_mean alt_vals c k w) (fadd (window_mean ref_vals c k w) epsilon)) (Fin 1)"

text \<open>
  For the proofs: the value that the cumulative sums give to entry \<open>(k, c)\<close>, written
  with the sums of the first \<open>k + w\<close> and of the first \<open>k\<close> samples of the channel.
\<close>

definition prefix_score :: "matrix \<Rightarrow> matrix \<Rightarrow> nat \<Rightarrow> nat \<Rightarrow> fval \<Rightarrow> nat \<Rightarrow> fval" where
  "prefix_score alt_vals ref_vals k w epsilon c =
     fsub (fdiv (fdiv (fsub (fsum (take (k + w) (column c alt_vals)))
                            (fsum (take k (column c alt_vals)))) (Fin (real w)))
                (fadd (fdiv (fsub (fsum (take (k + w) (column c ref_vals)))
                                  (fsum (take k (column c ref_vals)))) (Fin (real w)))
                      epsilon))
          (Fin 1)"

section \<open>Indel Aligner: \<open>align_reference_for_indel\<close>\<close>

text \<open>
  The fields of \<open>variant\<close>, \<open>interval\<close> and \<open>vout\<close> that the scanner reads. The two
  matrices of \<open>vout\<close> stand for \<open>vout.reference.rna_seq.values\<close> and
  \<open>vout.alternate.rna_seq.values\<close>.
\<close>

record variant =
  chromosome :: string
  position :: int
  reference_bases :: string
  alternate_bases :: string

record interval =
  interval_start :: int
  interval_end :: int

record variant_output =
  reference :: matrix
  alternate :: matrix

text \<open>
  The slice assignment \<open>xs[lo:hi] = src\<close> on the rows of an array. The right-hand side
  is read before anything is written. numpy broadcasts a right-hand side of one row and
  raises \<open>ValueError\<close> (here \<open>None\<close>) when the numbers of rows differ otherwise.
\<close>

definition slice_assign :: "'a list \<Rightarrow> int \<Rightarrow> int \<Rightarrow> 'a list \<Rightarrow> 'a list option" where
  "slice_assign xs lo hi src =
     (let n = int (length xs); a = py_index n lo; b = py_index n hi; k = b - a
      in if length src = k then Some (take a xs @ src @ drop (a + k) xs)
         else if length src = 1 then Some (take a xs @ replicate k (hd src) @ drop (a + k) xs)
         else None)"

text \<open>The assignment \<open>xs[lo:hi] = np.nan\<close>: every sample of the rows of the slice.\<close>

definition nan_row :: "fval list \<Rightarrow> fval list" where
  "nan_row r = map (\<lambda>_. NaN) r"

definition slice_assign_nan :: "matrix \<Rightarrow> int \<Rightarrow> int \<Rightarrow> matrix" where
  "slice_assign_nan xs lo hi =
     (let n = int (length xs); a = py_index n lo; b = py_index n hi; k = b - a
      in take a xs @ map nan_row (take k (drop a xs)) @ drop (a + k) xs)"

text \<open>
  The source updates \<open>vout.reference.rna_seq.values\<close> in place and returns nothing: the
  model returns the updated \<open>vout\<close>.
\<close>

definition align_reference_for_indel ::
  "variant \<Rightarrow> interval \<Rightarrow> variant_output \<Rightarrow> int \<Rightarrow> variant_output option" where
  "align_reference_for_indel variant interval vout length_alter =
     (let off = position variant - interval_start interval;
          len = interval_end interval - interval_start interval;
          vals = reference vout
      in if length_alter > 0 then
           do {
             vals1 \<leftarrow> slice_assign vals off (len - length_alter)
                        (slice vals (off + length_alter) len);
             Some (vout\<lparr>reference := slice_assign_nan vals1 (len - length_alter) len\<rparr>)
           }
         else if length_alter < 0 then
           do {
             vals1 \<leftarrow> slice_assign vals (off - length_alter) len
                        (slice vals off (len + length_alter));
             Some (vout\<lparr>reference := slice_assign_nan vals1 off (off - length_alter)\<rparr>)
           }
         else Some vout)"

section \<open>Region Classifier and Aggregator: the channel loop of \<open>main\<close>\<close>

text \<open>
  The command-line arguments that the core reads, and a row of the result table. A
  base-pair bound of a row is an integer or \<open>np.nan\<close>.
\<close>

record scan_args =
  threshold :: fval
  min_length :: int
  merge_distance :: int
  window_size :: int
  scan_span :: int
  epsilon :: fval

datatype bp = Bp int | BpNaN

record result_row =
  chrom :: string
  pos :: int
  ref :: string
  alt :: string
  ontology :: string
  track_name :: string
  is_significant :: bool
  n_regions :: int
  region_index :: int
  rel_start_bp :: bp
  rel_end_bp :: bp
  abs_start_bp :: bp
  abs_end_bp :: bp
  mean_score :: fval
  max_score :: fval
  min_score :: fval
  direction :: string
  plot_file :: "string option"















section \<open>Properties of the Region Caller\<close>

lemma compress_loop_runs:
  "compress_loop regions s p idx = (R, s', p') \<Longrightarrow> R @ [(s', p')] = regions @ runs_from s p idx"
  by (induction idx arbitrary: regions s p) (auto split: if_splits)

lemma compress_Cons: "compress (i0 # rest) = runs_from i0 i0 rest"
proof -
  obtain R s' p' where l: "compress_loop [] i0 i0 rest = (R, s', p')"
    by (cases "compress_loop [] i0 i0 rest") auto
  from compress_loop_runs [OF l] l show ?thesis by (simp add: compress_def)
qed

lemma merge_loop_closed:
  "merge_loop ml md merged cs ce rs = (M, s', e') \<Longrightarrow>
   (if ml \<le> e' - s' + 1 then M @ [(s', e')] else M)
   = merged @ filter (long_enough ml) (closed_from md cs ce rs)"
proof (induction rs arbitrary: merged cs ce)
  case Nil
  then show ?case by (auto simp: long_enough_def)
next
  case (Cons x rest)
  obtain s e where x: "x = (s, e)" by (cases x)
  show ?case
  proof (cases "s - ce \<le> md")
    case True
    with Cons.prems x have "merge_loop ml md merged cs e rest = (M, s', e')" by simp
    from Cons.IH [OF this] True x show ?thesis by simp
  next
    case False
    let ?m = "if ml \<le> ce - cs + 1 then merged @ [(cs, ce)] else merged"
    from False Cons.prems x have "merge_loop ml md ?m s e rest = (M, s', e')" by simp
    from Cons.IH [OF this] False x show ?thesis by (simp add: long_enough_def)
  qed
qed

lemma merge_filter_Cons:
  "merge_filter ml md ((s0, e0) # rest) = Some (filter (long_enough ml) (closed_from md s0 e0 rest))"
proof -
  obtain M s' e' where l: "merge_loop ml md [] s0 e0 rest = (M, s', e')"
    by (cases "merge_loop ml md [] s0 e0 rest") auto
  from merge_loop_closed [OF l] l show ?thesis by (simp add: merge_filter_def)
qed

lemma runs_from_nonempty: "runs_from s p idx \<noteq> []"
  by (induction idx arbitrary: s p) auto

lemma merge_filter_closed:
  "runs \<noteq> [] \<Longrightarrow> merge_filter ml md runs = Some (filter (long_enough ml) (closed_regions md runs))"
  by (cases runs) (auto simp: merge_filter_Cons closed_regions_def)

lemma call_regions_idx_closed:
  "call_regions_idx idx ml md = Some (filter (long_enough ml) (closed_regions md (compress idx)))"
proof (cases idx)
  case Nil
  then show ?thesis by (simp add: call_regions_idx_def compress_def closed_regions_def)
next
  case (Cons i0 rest)
  then show ?thesis
    by (simp add: call_regions_idx_def compress_Cons merge_filter_closed runs_from_nonempty)
qed

lemma where_loop_bounds: "x \<in> set (where_loop i xs thr) \<Longrightarrow> int i \<le> x \<and> x < int i + int (length xs)"
  by (induction xs arbitrary: i) (fastforce split: if_splits)+

lemma where_loop_sorted: "sorted_wrt (<) (where_loop i xs thr)"
  by (induction xs arbitrary: i) (auto dest: where_loop_bounds)

lemma where_above_sorted: "sorted_wrt (<) (where_above xs thr)"
  by (simp add: where_above_def where_loop_sorted)

lemma runs_from_bounds:
  "s \<le> p \<Longrightarrow> sorted_wrt (<) (p # idx) \<Longrightarrow> r \<in> set (runs_from s p idx) \<Longrightarrow> s \<le> fst r \<and> fst r \<le> snd r"
proof (induction idx arbitrary: s p)
  case Nil
  then show ?case by auto
next
  case (Cons i rest)
  show ?case
  proof (cases "i = p + 1")
    case True
    with Cons.prems have "r \<in> set (runs_from s i rest)" "s \<le> i" "sorted_wrt (<) (i # rest)" by auto
    then show ?thesis using Cons.IH [of s i] by simp
  next
    case False
    with Cons.prems have "r = (s, p) \<or> r \<in> set (runs_from i i rest)" by auto
    moreover have "sorted_wrt (<) (i # rest)" "p < i" using Cons.prems by auto
    ultimately show ?thesis using Cons.IH [of i i] Cons.prems(1) by fastforce
  qed
qed

lemma runs_from_apart:
  "s \<le> p \<Longrightarrow> sorted_wrt (<) (p # idx) \<Longrightarrow> sorted_wrt apart (runs_from s p idx)"
proof (induction idx arbitrary: s p)
  case Nil
  then show ?case by simp
next
  case (Cons i rest)
  have srt: "sorted_wrt (<) (i # rest)" and lt: "p < i" using Cons.prems by auto
  show ?case
  proof (cases "i = p + 1")
    case True
    then show ?thesis using Cons.IH [of s i] Cons.prems(1) srt by simp
  next
    case False
    have "apart (s, p) r" if "r \<in> set (runs_from i i rest)" for r
      using runs_from_bounds [of i i rest r] srt lt False that by (simp add: apart_def)
    then show ?thesis using Cons.IH [of i i] srt False by simp
  qed
qed

lemma closed_from_bounds:
  "cs \<le> ce \<Longrightarrow> \<forall>r \<in> set rs. ce + 2 \<le> fst r \<and> fst r \<le> snd r \<Longrightarrow> sorted_wrt apart rs \<Longrightarrow>
   r \<in> set (closed_from md cs ce rs) \<Longrightarrow> cs \<le> fst r \<and> fst r \<le> snd r"
proof (induction rs arbitrary: cs ce)
  case Nil
  then show ?case by auto
next
  case (Cons x rest)
  obtain s e where x: "x = (s, e)" by (cases x)
  have se: "ce + 2 \<le> s" "s \<le> e" using Cons.prems(2) x by auto
  have rest: "\<forall>r \<in> set rest. e + 2 \<le> fst r \<and> fst r \<le> snd r"
    using Cons.prems(2,3) x by (auto simp: apart_def)
  have rest2: "sorted_wrt apart rest"
    using Cons.prems(3) by simp
  show ?case
  proof (cases "s - ce \<le> md")
    case True
    then have "r \<in> set (closed_from md cs e rest)" using Cons.prems(4) x by simp
    then show ?thesis using Cons.IH [of cs e] rest rest2 se Cons.prems(1) by simp
  next
    case False
    then have "r = (cs, ce) \<or> r \<in> set (closed_from md s e rest)" using Cons.prems(4) x by auto
    then show ?thesis using Cons.IH [of s e] rest rest2 se Cons.prems(1) by fastforce
  qed
qed

lemma closed_from_beyond:
  "cs \<le> ce \<Longrightarrow> \<forall>r \<in> set rs. ce + 2 \<le> fst r \<and> fst r \<le> snd r \<Longrightarrow> sorted_wrt apart rs \<Longrightarrow>
   sorted_wrt (beyond md) (closed_from md cs ce rs)"
proof (induction rs arbitrary: cs ce)
  case Nil
  then show ?case by simp
next
  case (Cons x rest)
  obtain s e where x: "x = (s, e)" by (cases x)
  have se: "ce + 2 \<le> s" "s \<le> e" using Cons.prems(2) x by auto
  have rest: "\<forall>r \<in> set rest. e + 2 \<le> fst r \<and> fst r \<le> snd r"
    using Cons.prems(2,3) x by (auto simp: apart_def)
  have rest2: "sorted_wrt apart rest"
    using Cons.prems(3) by simp
  show ?case
  proof (cases "s - ce \<le> md")
    case True
    then show ?thesis using Cons.IH [of cs e] rest rest2 se Cons.prems(1) x by simp
  next
    case False
    have "beyond md (cs, ce) r" if "r \<in> set (closed_from md s e rest)" for r
      using closed_from_bounds [of s e rest r md] rest rest2 se False that by (simp add: beyond_def)
    then show ?thesis using Cons.IH [of s e] rest rest2 se False x by simp
  qed
qed

lemma compress_sorted:
  assumes "sorted_wrt (<) idx"
  shows "sorted_wrt apart (compress idx)" and "\<forall>r \<in> set (compress idx). fst r \<le> snd r"
proof -
  show "sorted_wrt apart (compress idx)"
  proof (cases idx)
    case Nil
    then show ?thesis by (simp add: compress_def)
  next
    case (Cons i0 rest)
    then show ?thesis using assms runs_from_apart [of i0 i0 rest] by (simp add: compress_Cons)
  qed
  show "\<forall>r \<in> set (compress idx). fst r \<le> snd r"
  proof (cases idx)
    case Nil
    then show ?thesis by (simp add: compress_def)
  next
    case (Cons i0 rest)
    then show ?thesis using assms runs_from_bounds [of i0 i0 rest] by (simp add: compress_Cons)
  qed
qed

lemma closed_regions_sorted:
  assumes "sorted_wrt apart runs" and "\<forall>r \<in> set runs. fst r \<le> snd r"
  shows "sorted_wrt (beyond md) (closed_regions md runs)"
    and "\<forall>r \<in> set (closed_regions md runs). fst r \<le> snd r"
proof -
  show "sorted_wrt (beyond md) (closed_regions md runs)"
  proof (cases runs)
    case Nil
    then show ?thesis by (simp add: closed_regions_def)
  next
    case (Cons x rest)
    obtain s e where x: "x = (s, e)" by (cases x)
    have "s \<le> e" "\<forall>r \<in> set rest. e + 2 \<le> fst r \<and> fst r \<le> snd r" "sorted_wrt apart rest"
      using assms Cons x by (auto simp: apart_def)
    then show ?thesis using closed_from_beyond [of s e rest md] Cons x
      by (simp add: closed_regions_def)
  qed
  show "\<forall>r \<in> set (closed_regions md runs). fst r \<le> snd r"
  proof (cases runs)
    case Nil
    then show ?thesis by (simp add: closed_regions_def)
  next
    case (Cons x rest)
    obtain s e where x: "x = (s, e)" by (cases x)
    have "s \<le> e" "\<forall>r \<in> set rest. e + 2 \<le> fst r \<and> fst r \<le> snd r" "sorted_wrt apart rest"
      using assms Cons x by (auto simp: apart_def)
    then show ?thesis using closed_from_bounds [of s e rest _ md] Cons x
      by (simp add: closed_regions_def)
  qed
qed

lemma call_regions_closed:
  "call_regions scores thr ml md =
     Some (filter (long_enough ml) (closed_regions md (compress (where_above scores thr))))"
  by (simp add: call_regions_def call_regions_idx_closed)

lemma closed_of_scores:
  "sorted_wrt (beyond md) (closed_regions md (compress (where_above scores thr)))"
  "\<forall>r \<in> set (closed_regions md (compress (where_above scores thr))). fst r \<le> snd r"
  using closed_regions_sorted compress_sorted where_above_sorted by blast+

text \<open>
  Claim C2, as amended. For every score array, threshold, minimum length and merge distance,
  \<open>call_regions\<close> returns a list in which each region ends before the next one starts,
  the number of unselected indices between two consecutive regions,
  \<open>start - end - 1\<close>, is at least \<open>merge_distance\<close> (the loop closes a region exactly
  when \<open>start - end > merge_distance\<close>), and every region has length
  \<open>end - start + 1 \<ge> min_length\<close>.
\<close>

theorem call_regions_separated:
  "\<exists>out. call_regions scores thr ml md = Some out \<and>
     (\<forall>i. Suc i < length out \<longrightarrow>
        snd (out ! i) < fst (out ! Suc i) \<and> md \<le> fst (out ! Suc i) - snd (out ! i) - 1) \<and>
     (\<forall>r \<in> set out. ml \<le> snd r - fst r + 1)"
proof -
  let ?closed = "closed_regions md (compress (where_above scores thr))"
  let ?out = "filter (long_enough ml) ?closed"
  have srt: "sorted_wrt (beyond md) ?out"
    using closed_of_scores(1) by (rule sorted_wrt_filter)
  have "snd (?out ! i) < fst (?out ! Suc i) \<and> md \<le> fst (?out ! Suc i) - snd (?out ! i) - 1"
    if "Suc i < length ?out" for i
  proof -
    have "beyond md (?out ! i) (?out ! Suc i)"
      using srt that by (simp add: sorted_wrt_nth_less)
    then show ?thesis by (simp add: beyond_def)
  qed
  moreover have "\<forall>r \<in> set ?out. ml \<le> snd r - fst r + 1"
    by (simp add: long_enough_def)
  ultimately show ?thesis
    using call_regions_closed [of scores thr ml md] by blast
qed

text \<open>
  Scores with the runs \<open>(0, 0)\<close>, \<open>(2, 3)\<close> and \<open>(7, 7)\<close>, merge distance \<open>2\<close>: the
  first two merge, the third stays apart, with three unselected indices in between.
\<close>

theorem call_regions_separated_witness:
  "call_regions [Fin 0.9, Fin 0, Fin 0.9, Fin 0.8, Fin 0, Fin 0, Fin 0, Fin (- 2)] (Fin 0.5) 1 2
     = Some [(0, 3), (7, 7)]
   \<and> snd ([(0, 3), (7, 7)] ! 0 :: int \<times> int) < fst ([(0, 3), (7, 7)] ! Suc 0 :: int \<times> int)
   \<and> (2 :: int) \<le> fst ([(0, 3), (7, 7)] ! Suc 0 :: int \<times> int)
                    - snd ([(0, 3), (7, 7)] ! 0 :: int \<times> int) - 1
   \<and> (1 :: int) \<le> snd ((0, 3) :: int \<times> int) - fst ((0, 3) :: int \<times> int) + 1"
  using call_regions_separated
    [of "[Fin 0.9, Fin 0, Fin 0.9, Fin 0.8, Fin 0, Fin 0, Fin 0, Fin (- 2)]" "Fin 0.5" 1 2]
  by (simp add: call_regions_def call_regions_idx_def where_above_def compress_def
      merge_filter_def)

text \<open>
  The bound of the specification, \<open>start - end - 1 > merge_distance\<close>, fails: with
  merge distance \<open>1\<close> the runs \<open>(0, 0)\<close> and \<open>(2, 2)\<close> are both returned, and exactly
  one unselected index lies between them.
\<close>

theorem call_regions_separated_counterexample:
  "call_regions [Fin 0.9, Fin 0, Fin 0.9] (Fin 0.5) 1 1 = Some [(0, 0), (2, 2)]
   \<and> \<not> (1 < fst ([(0, 0), (2, 2)] ! 1) - snd ([(0, 0), (2, 2)] ! 0) - (1 :: int))"
  by (simp add: call_regions_def call_regions_idx_def where_above_def compress_def
      merge_filter_def)

lemma closed_from_covers_head:
  "ce \<le> ce' \<Longrightarrow> \<forall>r \<in> set rs. fst r \<le> snd r \<Longrightarrow> sorted_wrt apart ((cs, ce) # rs) \<Longrightarrow>
   \<exists>c \<in> set (closed_from md cs ce' rs). fst c = cs \<and> ce \<le> snd c"
proof (induction rs arbitrary: ce')
  case Nil
  then show ?case by simp
next
  case (Cons x rest)
  obtain s e where x: "x = (s, e)" by (cases x)
  show ?case
  proof (cases "s - ce' \<le> md")
    case True
    have "ce \<le> e" using Cons.prems x by (auto simp: apart_def)
    moreover have "sorted_wrt apart ((cs, ce) # rest)" using Cons.prems(3) by simp
    ultimately show ?thesis using Cons.IH [of e] Cons.prems(2) True x by simp
  next
    case False
    then show ?thesis using Cons.prems(1) x by simp
  qed
qed

lemma closed_from_covers:
  "\<forall>r \<in> set rs. cs \<le> fst r \<and> fst r \<le> snd r \<Longrightarrow> sorted_wrt apart rs \<Longrightarrow> r \<in> set rs \<Longrightarrow>
   \<exists>c \<in> set (closed_from md cs ce rs). fst c \<le> fst r \<and> snd r \<le> snd c"
proof (induction rs arbitrary: cs ce)
  case Nil
  then show ?case by simp
next
  case (Cons x rest)
  obtain s e where x: "x = (s, e)" by (cases x)
  have se: "cs \<le> s" "s \<le> e" using Cons.prems(1) x by auto
  have ord: "\<forall>r \<in> set rest. fst r \<le> snd r" using Cons.prems(1) by simp
  have ap: "\<forall>r \<in> set rest. e + 2 \<le> fst r" "sorted_wrt apart rest"
  proof -
    show "\<forall>r \<in> set rest. e + 2 \<le> fst r" using Cons.prems(2) x by (auto simp: apart_def)
    show "sorted_wrt apart rest" using Cons.prems(2) by simp
  qed
  have head: "\<exists>c \<in> set (closed_from md k e rest). fst c = k \<and> e \<le> snd c" for k
    using closed_from_covers_head [of e e rest k md] ord ap by (simp add: apart_def)
  show ?case
  proof (cases "r = x")
    case True
    show ?thesis
    proof (cases "s - ce \<le> md")
      case True
      then show ?thesis using head [of cs] \<open>r = x\<close> x se by auto
    next
      case False
      then show ?thesis using head [of s] \<open>r = x\<close> x by auto
    qed
  next
    case False
    then have r: "r \<in> set rest" using Cons.prems(3) by simp
    show ?thesis
    proof (cases "s - ce \<le> md")
      case True
      have "\<forall>r \<in> set rest. cs \<le> fst r \<and> fst r \<le> snd r" using ord ap(1) se by fastforce
      from Cons.IH [OF this ap(2) r, of e] True x show ?thesis by simp
    next
      case False
      have "\<forall>r \<in> set rest. s \<le> fst r \<and> fst r \<le> snd r" using ord ap(1) se by fastforce
      from Cons.IH [OF this ap(2) r, of e] False x show ?thesis by simp
    qed
  qed
qed

lemma closed_regions_covers:
  assumes "sorted_wrt apart runs" and "\<forall>r \<in> set runs. fst r \<le> snd r" and "r \<in> set runs"
  shows "\<exists>c \<in> set (closed_regions md runs). fst c \<le> fst r \<and> snd r \<le> snd c"
proof (cases runs)
  case Nil
  then show ?thesis using assms by simp
next
  case (Cons x rest)
  obtain s e where x: "x = (s, e)" by (cases x)
  have ord: "\<forall>r \<in> set rest. s \<le> fst r \<and> fst r \<le> snd r" and ap: "sorted_wrt apart rest"
    and se: "s \<le> e"
    using assms(1,2) Cons x by (auto simp: apart_def)
  show ?thesis
  proof (cases "r = x")
    case True
    have "\<exists>c \<in> set (closed_from md s e rest). fst c = s \<and> e \<le> snd c"
      using closed_from_covers_head [of e e rest s md] assms(1,2) Cons x by simp
    then show ?thesis using True Cons x by (auto simp: closed_regions_def)
  next
    case False
    then have "r \<in> set rest" using assms(3) Cons by simp
    from closed_from_covers [OF ord ap this, of md e] show ?thesis
      using Cons x by (simp add: closed_regions_def)
  qed
qed

lemma closed_regions_unfiltered:
  "call_regions scores thr 1 md = Some (closed_regions md (compress (where_above scores thr)))"
proof -
  have "filter (long_enough 1) (closed_regions md (compress (where_above scores thr)))
      = closed_regions md (compress (where_above scores thr))"
    using closed_of_scores(2) [of md scores thr] by (auto simp: long_enough_def filter_id_conv)
  then show ?thesis by (simp add: call_regions_closed)
qed

text \<open>
  Claim C5. The result of \<open>call_regions\<close> is the list of regions the merge sweep closes,
  filtered by \<open>min_length\<close>: the filter sees closed regions only, never the raw runs.
  Every raw run, however short, lies inside one closed region, and that region is in the
  result exactly when its own length is at least \<open>min_length\<close>. A run that the sweep
  closes on its own (it merged with no neighbour) and that is shorter than
  \<open>min_length\<close> is not in the result.
\<close>

theorem min_length_filter_after_merge:
  "\<exists>out. call_regions scores thr ml md = Some out \<and>
     out = filter (\<lambda>(s, e). ml \<le> e - s + 1)
             (closed_regions md (compress (where_above scores thr))) \<and>
     (\<forall>r \<in> set (compress (where_above scores thr)).
        \<exists>c \<in> set (closed_regions md (compress (where_above scores thr))).
          fst c \<le> fst r \<and> snd r \<le> snd c \<and> (c \<in> set out \<longleftrightarrow> ml \<le> snd c - fst c + 1)) \<and>
     (\<forall>r \<in> set (compress (where_above scores thr)).
        r \<in> set (closed_regions md (compress (where_above scores thr))) \<and>
        snd r - fst r + 1 < ml \<longrightarrow> r \<notin> set out)"
proof -
  let ?runs = "compress (where_above scores thr)"
  let ?closed = "closed_regions md ?runs"
  let ?out = "filter (long_enough ml) ?closed"
  have eq: "long_enough ml = (\<lambda>(s, e). ml \<le> e - s + 1)"
    by (auto simp: long_enough_def fun_eq_iff)
  have runs: "sorted_wrt apart ?runs" "\<forall>r \<in> set ?runs. fst r \<le> snd r"
    using compress_sorted where_above_sorted by blast+
  have cover: "\<exists>c \<in> set ?closed. fst c \<le> fst r \<and> snd r \<le> snd c \<and>
                 (c \<in> set ?out \<longleftrightarrow> ml \<le> snd c - fst c + 1)"
    if rin: "r \<in> set ?runs" for r
  proof -
    obtain c where "c \<in> set ?closed" "fst c \<le> fst r" "snd r \<le> snd c"
      using closed_regions_covers [OF runs rin, of md] by blast
    then show ?thesis by (auto simp: long_enough_def)
  qed
  have drop: "r \<notin> set ?out" if "snd r - fst r + 1 < ml" for r
    using that by (simp add: long_enough_def)
  show ?thesis
    unfolding call_regions_closed eq [symmetric] using cover drop by blast
qed

text \<open>
  Three runs of length \<open>1\<close> and minimum length \<open>3\<close>: the first two merge into
  \<open>(0, 2)\<close>, which is kept; the third is closed on its own and dropped.
\<close>

theorem min_length_filter_after_merge_witness:
  "compress (where_above [Fin 0.9, Fin 0, Fin 0.9, Fin 0, Fin 0, Fin 0, Fin 0, Fin 0.7] (Fin 0.5))
     = [(0, 0), (2, 2), (7, 7)]
   \<and> closed_regions 2 [(0, 0), (2, 2), (7, 7)] = [(0, 2), (7, 7)]
   \<and> call_regions [Fin 0.9, Fin 0, Fin 0.9, Fin 0, Fin 0, Fin 0, Fin 0, Fin 0.7] (Fin 0.5) 3 2
     = Some [(0, 2)]"
  using min_length_filter_after_merge
    [of "[Fin 0.9, Fin 0, Fin 0.9, Fin 0, Fin 0, Fin 0, Fin 0, Fin 0.7]" "Fin 0.5" 3 2]
  by (simp add: where_above_def compress_def closed_regions_def)

lemma runs_from_span: "p \<le> b \<Longrightarrow> runs_from s p ([p + 1..b] @ rest) = runs_from s b rest"
proof (induction "nat (b - p)" arbitrary: p)
  case 0
  then have "p = b" by simp
  then show ?case by simp
next
  case (Suc n)
  then have lt: "p < b" and n: "n = nat (b - (p + 1))" by auto
  then have "[p + 1..b] = (p + 1) # [p + 1 + 1..b]" by (simp add: upto_rec1)
  then show ?case using Suc.hyps(1) [OF n] lt by simp
qed

lemma runs_from_spans:
  "\<forall>r \<in> set R. fst r \<le> snd r \<Longrightarrow> sorted_wrt apart ((s, p) # R) \<Longrightarrow>
   runs_from s p (concat (map (\<lambda>(a, b). [a..b]) R)) = (s, p) # R"
proof (induction R arbitrary: s p)
  case Nil
  then show ?case by simp
next
  case (Cons x R)
  obtain a b where x: "x = (a, b)" by (cases x)
  have ab: "a \<le> b" "p + 2 \<le> a" using Cons.prems x by (auto simp: apart_def)
  have srt: "sorted_wrt apart ((a, b) # R)" using Cons.prems(2) x by simp
  have ord: "\<forall>r \<in> set R. fst r \<le> snd r" using Cons.prems(1) by simp
  have "[a..b] = a # [a + 1..b]" using ab(1) by (simp add: upto_rec1)
  then have "runs_from s p (concat (map (\<lambda>(a, b). [a..b]) (x # R)))
      = (s, p) # runs_from a a ([a + 1..b] @ concat (map (\<lambda>(a, b). [a..b]) R))"
    using ab(2) x by simp
  also have "\<dots> = (s, p) # runs_from a b (concat (map (\<lambda>(a, b). [a..b]) R))"
    using runs_from_span [OF ab(1)] by simp
  also have "\<dots> = (s, p) # x # R"
    using Cons.IH [OF ord srt] x by simp
  finally show ?case .
qed

lemma compress_spans:
  assumes "\<forall>r \<in> set R. fst r \<le> snd r" and "sorted_wrt apart R"
  shows "compress (concat (map (\<lambda>(a, b). [a..b]) R)) = R"
proof (cases R)
  case Nil
  then show ?thesis by (simp add: compress_def)
next
  case (Cons x R')
  obtain a b where x: "x = (a, b)" by (cases x)
  have ab: "a \<le> b" using assms(1) Cons x by simp
  have ord: "\<forall>r \<in> set R'. fst r \<le> snd r" using assms(1) Cons by simp
  have srt: "sorted_wrt apart ((a, b) # R')" using assms(2) Cons x by simp
  have "[a..b] = a # [a + 1..b]" using ab by (simp add: upto_rec1)
  then have "compress (concat (map (\<lambda>(a, b). [a..b]) R))
      = runs_from a a ([a + 1..b] @ concat (map (\<lambda>(a, b). [a..b]) R'))"
    using Cons x by (simp add: compress_Cons)
  also have "\<dots> = runs_from a b (concat (map (\<lambda>(a, b). [a..b]) R'))"
    using runs_from_span [OF ab] by simp
  also have "\<dots> = R"
    using runs_from_spans [OF ord srt] Cons x by simp
  finally show ?thesis .
qed

lemma closed_from_beyond_id:
  "sorted_wrt (beyond md) ((cs, ce) # R) \<Longrightarrow> closed_from md cs ce R = (cs, ce) # R"
proof (induction R arbitrary: cs ce)
  case Nil
  then show ?case by simp
next
  case (Cons x R)
  obtain s e where x: "x = (s, e)" by (cases x)
  have "\<not> s - ce \<le> md" using Cons.prems x by (simp add: beyond_def)
  moreover have "sorted_wrt (beyond md) ((s, e) # R)" using Cons.prems x by simp
  ultimately show ?case using Cons.IH [of s e] x by simp
qed

lemma closed_regions_beyond_id:
  "sorted_wrt (beyond md) R \<Longrightarrow> closed_regions md R = R"
  by (cases R) (auto simp: closed_regions_def closed_from_beyond_id simp del: sorted_wrt.simps)

lemma beyond_apart: "sorted_wrt (beyond md) R \<Longrightarrow> sorted_wrt apart R"
  by (rule sorted_wrt_mono_rel [of R "beyond md" apart]) (auto simp: beyond_def apart_def)

text \<open>
  Claim C6. Take the result of \<open>call_regions\<close>, select every index of every region of
  it, and run the compression, merge and filter of \<open>call_regions\<close> on these indices:
  the result is the same list of regions.
\<close>

theorem call_regions_idempotent:
  "\<exists>out. call_regions scores thr ml md = Some out \<and>
         call_regions_idx (concat (map (\<lambda>(s, e). [s..e]) out)) ml md = Some out"
proof -
  let ?closed = "closed_regions md (compress (where_above scores thr))"
  let ?out = "filter (long_enough ml) ?closed"
  have srt: "sorted_wrt (beyond md) ?out"
    using closed_of_scores(1) by (rule sorted_wrt_filter)
  have ord: "\<forall>r \<in> set ?out. fst r \<le> snd r"
    using closed_of_scores(2) [of md scores thr] by simp
  have "compress (concat (map (\<lambda>(s, e). [s..e]) ?out)) = ?out"
    using compress_spans [OF ord beyond_apart [OF srt]] .
  then have "call_regions_idx (concat (map (\<lambda>(s, e). [s..e]) ?out)) ml md
      = Some (filter (long_enough ml) (closed_regions md ?out))"
    by (simp only: call_regions_idx_closed)
  also have "\<dots> = Some ?out"
    by (simp add: closed_regions_beyond_id [OF srt])
  finally show ?thesis
    using call_regions_closed [of scores thr ml md] by blast
qed

text \<open>
  The result \<open>[(0, 3), (7, 7)]\<close>, with index \<open>1\<close> inside the first region although its
  score is below the threshold, comes back unchanged.
\<close>

theorem call_regions_idempotent_witness:
  "call_regions [Fin 0.9, Fin 0, Fin (- 0.9), Fin 0.8, Fin 0, Fin 0, Fin 0, PInf, NaN] (Fin 0.5) 1 2
     = Some [(0, 3), (7, 7)]
   \<and> call_regions_idx (concat (map (\<lambda>(s, e). [s..e]) [(0, 3), (7, 7)])) 1 2
     = Some [(0, 3), (7, 7)]"
  using call_regions_idempotent
    [of "[Fin 0.9, Fin 0, Fin (- 0.9), Fin 0.8, Fin 0, Fin 0, Fin 0, PInf, NaN]" "Fin 0.5" 1 2]
  by (simp add: call_regions_def call_regions_idx_def where_above_def compress_def
      merge_filter_def)

lemma closed_from_ends:
  "c \<in> set (closed_from md cs ce rs) \<Longrightarrow> snd c = ce \<or> snd c \<in> snd ` set rs"
proof (induction rs arbitrary: cs ce)
  case Nil
  then show ?case by auto
next
  case (Cons x rest)
  obtain s e where x: "x = (s, e)" by (cases x)
  show ?case
  proof (cases "s - ce \<le> md")
    case True
    then have "c \<in> set (closed_from md cs e rest)" using Cons.prems x by simp
    from Cons.IH [OF this] x show ?thesis by auto
  next
    case False
    then have "c = (cs, ce) \<or> c \<in> set (closed_from md s e rest)" using Cons.prems x by auto
    then show ?thesis using Cons.IH [of s e] x by auto
  qed
qed

lemma closed_from_starts:
  "c \<in> set (closed_from md cs ce rs) \<Longrightarrow> fst c = cs \<or> fst c \<in> fst ` set rs"
proof (induction rs arbitrary: cs ce)
  case Nil
  then show ?case by auto
next
  case (Cons x rest)
  obtain s e where x: "x = (s, e)" by (cases x)
  show ?case
  proof (cases "s - ce \<le> md")
    case True
    then have "c \<in> set (closed_from md cs e rest)" using Cons.prems x by simp
    from Cons.IH [OF this] x show ?thesis by auto
  next
    case False
    then have "c = (cs, ce) \<or> c \<in> set (closed_from md s e rest)" using Cons.prems x by auto
    then show ?thesis using Cons.IH [of s e] x by auto
  qed
qed

text \<open>
  The sweep keeps the end of the last run and the start of the next one in one region
  exactly when the test of line 191 holds for them. \<open>pe\<close> is the end of the run before
  run \<open>i\<close> of the list: the end of the running region for the first run.
\<close>

lemma closed_from_joins:
  assumes "cs \<le> ce" and "\<forall>r \<in> set rs. ce + 2 \<le> fst r \<and> fst r \<le> snd r"
    and "sorted_wrt apart rs" and "i < length rs"
  shows "(\<exists>c \<in> set (closed_from md cs ce rs).
            fst c \<le> (if i = 0 then ce else snd (rs ! (i - 1))) \<and> fst (rs ! i) \<le> snd c)
         \<longleftrightarrow> fst (rs ! i) - (if i = 0 then ce else snd (rs ! (i - 1))) \<le> md"
  using assms
proof (induction rs arbitrary: cs ce i)
  case Nil
  then show ?case by simp
next
  case (Cons x rest)
  obtain s e where x: "x = (s, e)" by (cases x)
  have se: "ce + 2 \<le> s" "s \<le> e" using Cons.prems(2) x by auto
  have rest: "\<forall>r \<in> set rest. e + 2 \<le> fst r \<and> fst r \<le> snd r"
    using Cons.prems(2,3) x by (auto simp: apart_def)
  have rest2: "sorted_wrt apart rest" using Cons.prems(3) by simp
  have ord: "\<forall>r \<in> set rest. fst r \<le> snd r" using rest by simp
  show ?case
  proof (cases "s - ce \<le> md")
    case merge: True
    show ?thesis
    proof (cases i)
      case 0
      have "sorted_wrt apart ((cs, e) # rest)" using rest rest2 by (auto simp: apart_def)
      then obtain c where "c \<in> set (closed_from md cs e rest)" "fst c = cs" "e \<le> snd c"
        using closed_from_covers_head [of e e rest cs md] ord by auto
      then have "\<exists>c \<in> set (closed_from md cs e rest). fst c \<le> ce \<and> s \<le> snd c"
        using Cons.prems(1) se by auto
      then show ?thesis using 0 merge x by simp
    next
      case (Suc k)
      then have k: "k < length rest" using Cons.prems(4) by simp
      have ce': "cs \<le> e" using Cons.prems(1) se by simp
      have pe: "(if Suc k = 0 then ce else snd ((x # rest) ! (Suc k - 1)))
          = (if k = 0 then e else snd (rest ! (k - 1)))"
        using x by (cases k) auto
      from Cons.IH [OF ce' rest rest2 k] show ?thesis
        unfolding Suc pe using merge x by simp
    qed
  next
    case split: False
    have lo: "s \<le> fst c" if "c \<in> set (closed_from md s e rest)" for c
      using closed_from_bounds [OF se(2) rest rest2 that] by simp
    show ?thesis
    proof (cases i)
      case 0
      have "\<not> (\<exists>c \<in> set ((cs, ce) # closed_from md s e rest). fst c \<le> ce \<and> s \<le> snd c)"
        using lo se by fastforce
      then show ?thesis using 0 split x by simp
    next
      case (Suc k)
      then have k: "k < length rest" using Cons.prems(4) by simp
      have pe: "(if Suc k = 0 then ce else snd ((x # rest) ! (Suc k - 1)))
          = (if k = 0 then e else snd (rest ! (k - 1)))"
        using x by (cases k) auto
      have "e + 2 \<le> fst (rest ! k)" using rest k by simp
      then have first: "\<not> fst (rest ! k) \<le> ce" using se by simp
      from Cons.IH [OF se(2) rest rest2 k] show ?thesis
        unfolding Suc pe using split x first by simp
    qed
  qed
qed

lemma closed_regions_joins:
  assumes "sorted_wrt apart runs" and "\<forall>r \<in> set runs. fst r \<le> snd r"
    and "Suc i < length runs"
  shows "(\<exists>c \<in> set (closed_regions md runs). fst c \<le> snd (runs ! i) \<and> fst (runs ! Suc i) \<le> snd c)
         \<longleftrightarrow> fst (runs ! Suc i) - snd (runs ! i) \<le> md"
proof (cases runs)
  case Nil
  then show ?thesis using assms(3) by simp
next
  case (Cons x rs)
  obtain s e where x: "x = (s, e)" by (cases x)
  have se: "s \<le> e" using assms(2) Cons x by simp
  have rest: "\<forall>r \<in> set rs. e + 2 \<le> fst r \<and> fst r \<le> snd r"
    using assms(1,2) Cons x by (auto simp: apart_def)
  have rest2: "sorted_wrt apart rs" using assms(1) Cons by simp
  have i: "i < length rs" using assms(3) Cons by simp
  have pe: "(if i = 0 then e else snd (rs ! (i - 1))) = snd (runs ! i)"
    using Cons x by (cases i) auto
  have nx: "rs ! i = runs ! Suc i" using Cons by simp
  from closed_from_joins [OF se rest rest2 i, of md] show ?thesis
    unfolding pe nx using Cons x by (simp add: closed_regions_def)
qed

lemma closed_regions_endpoints:
  assumes "c \<in> set (closed_regions md runs)"
  shows "\<exists>p \<in> set runs. \<exists>q \<in> set runs. fst c = fst p \<and> snd c = snd q"
proof (cases runs)
  case Nil
  then show ?thesis using assms by (simp add: closed_regions_def)
next
  case (Cons x rs)
  obtain s e where x: "x = (s, e)" by (cases x)
  have c: "c \<in> set (closed_from md s e rs)"
    using assms Cons x by (simp add: closed_regions_def)
  have "fst c = s \<or> fst c \<in> fst ` set rs" using closed_from_starts [OF c] .
  then have "\<exists>p \<in> set runs. fst c = fst p" using Cons x by auto
  moreover have "snd c = e \<or> snd c \<in> snd ` set rs" using closed_from_ends [OF c] .
  then have "\<exists>q \<in> set runs. snd c = snd q" using Cons x by auto
  ultimately show ?thesis by blast
qed

text \<open>
  Claim C1, as amended. The sweep of \<open>call_regions\<close> over the runs of the selected
  indices merges a run into the running region exactly when
  \<open>start - end \<le> merge_distance\<close>, where \<open>end\<close> is the end of the run before it, that is
  when the number of unselected indices between them, \<open>start - end - 1\<close>, is strictly less
  than \<open>merge_distance\<close>; a gap of exactly \<open>merge_distance\<close> unselected indices does not
  merge. In full, for every score array: the regions the sweep closes are what
  \<open>call_regions\<close> returns for minimum length \<open>1\<close>, and its result for any minimum length
  is these regions filtered; they are ascending and disjoint, each starts at the start of a
  run and ends at the end of a run, every run lies in one of them, and two consecutive
  runs lie in the same one exactly when the test above holds for them.
\<close>

theorem merge_boundary:
  "\<exists>closed.
     call_regions scores thr 1 md = Some closed \<and>
     call_regions scores thr ml md = Some (filter (\<lambda>(s, e). ml \<le> e - s + 1) closed) \<and>
     sorted_wrt (\<lambda>x y. snd x < fst y) closed \<and>
     (\<forall>c \<in> set closed.
        \<exists>p \<in> set (compress (where_above scores thr)).
        \<exists>q \<in> set (compress (where_above scores thr)). fst c = fst p \<and> snd c = snd q) \<and>
     (\<forall>r \<in> set (compress (where_above scores thr)).
        \<exists>c \<in> set closed. fst c \<le> fst r \<and> snd r \<le> snd c) \<and>
     (\<forall>i. Suc i < length (compress (where_above scores thr)) \<longrightarrow>
        ((\<exists>c \<in> set closed.
            fst c \<le> snd (compress (where_above scores thr) ! i) \<and>
            fst (compress (where_above scores thr) ! Suc i) \<le> snd c)
         \<longleftrightarrow> fst (compress (where_above scores thr) ! Suc i)
               - snd (compress (where_above scores thr) ! i) - 1 < md))"
proof -
  let ?runs = "compress (where_above scores thr)"
  let ?closed = "closed_regions md ?runs"
  have eq: "long_enough ml = (\<lambda>(s, e). ml \<le> e - s + 1)"
    by (auto simp: long_enough_def fun_eq_iff)
  have runs: "sorted_wrt apart ?runs" "\<forall>r \<in> set ?runs. fst r \<le> snd r"
    using compress_sorted where_above_sorted by blast+
  have a: "call_regions scores thr 1 md = Some ?closed"
    by (rule closed_regions_unfiltered)
  have b: "call_regions scores thr ml md = Some (filter (\<lambda>(s, e). ml \<le> e - s + 1) ?closed)"
    unfolding eq [symmetric] by (rule call_regions_closed)
  have c: "sorted_wrt (\<lambda>x y. snd x < fst y) ?closed"
    by (rule sorted_wrt_mono_rel [OF _ closed_of_scores(1) [of md scores thr]])
      (simp add: beyond_def)
  have d: "\<forall>c \<in> set ?closed. \<exists>p \<in> set ?runs. \<exists>q \<in> set ?runs. fst c = fst p \<and> snd c = snd q"
    using closed_regions_endpoints by blast
  have e: "\<forall>r \<in> set ?runs. \<exists>c \<in> set ?closed. fst c \<le> fst r \<and> snd r \<le> snd c"
    using closed_regions_covers [OF runs] by blast
  have f: "(\<exists>c \<in> set ?closed. fst c \<le> snd (?runs ! i) \<and> fst (?runs ! Suc i) \<le> snd c)
      \<longleftrightarrow> fst (?runs ! Suc i) - snd (?runs ! i) - 1 < md"
    if "Suc i < length ?runs" for i
    using closed_regions_joins [OF runs that, of md] by linarith
  show ?thesis
    using a b c d e f by (intro exI [of _ ?closed]) blast
qed

text \<open>
  Four runs of one index, \<open>(0, 0)\<close>, \<open>(2, 2)\<close>, \<open>(5, 5)\<close> and \<open>(9, 9)\<close>, and merge distance
  \<open>3\<close>: the second merges, the third merges into the region the second extended
  (\<open>5 - 2 = 3\<close>), the fourth does not (\<open>9 - 5 = 4\<close>). And the worked example of the
  specification, scores \<open>[0, 0.6, 0.7, 0, 0, 0.55, 0]\<close>, threshold \<open>0.5\<close>, minimum length
  \<open>1\<close>: its runs \<open>(1, 2)\<close> and \<open>(5, 5)\<close> merge with merge distance \<open>3\<close>.
\<close>

theorem merge_boundary_witness:
  "compress (where_above [Fin 1, Fin 0, Fin 1, Fin 0, Fin 0, Fin (- 1), Fin 0, Fin 0, Fin 0, Fin 1]
      (Fin 0.5)) = [(0, 0), (2, 2), (5, 5), (9, 9)]
   \<and> call_regions [Fin 1, Fin 0, Fin 1, Fin 0, Fin 0, Fin (- 1), Fin 0, Fin 0, Fin 0, Fin 1]
        (Fin 0.5) 1 3 = Some [(0, 5), (9, 9)]
   \<and> call_regions [Fin 1, Fin 0, Fin 1, Fin 0, Fin 0, Fin (- 1), Fin 0, Fin 0, Fin 0, Fin 1]
        (Fin 0.5) 2 3 = Some [(0, 5)]
   \<and> call_regions [Fin 0, Fin 0.6, Fin 0.7, Fin 0, Fin 0, Fin 0.55, Fin 0] (Fin 0.5) 1 3
        = Some [(1, 5)]"
proof -
  have ev: ?thesis by code_simp
  from merge_boundary
      [of "[Fin 1, Fin 0, Fin 1, Fin 0, Fin 0, Fin (- 1), Fin 0, Fin 0, Fin 0, Fin 1]"
        "Fin 0.5" 3 2]
    merge_boundary [of "[Fin 0, Fin 0.6, Fin 0.7, Fin 0, Fin 0, Fin 0.55, Fin 0]" "Fin 0.5" 3 1]
    ev
  show ?thesis by blast
qed

text \<open>
  On the worked example, with the merge distance \<open>2\<close> of the specification, the result
  is not \<open>[(1, 5)]\<close>.
\<close>

theorem merge_boundary_counterexample:
  "call_regions [Fin 0, Fin 0.6, Fin 0.7, Fin 0, Fin 0, Fin 0.55, Fin 0] (Fin 0.5) 1 2
     = Some [(1, 2), (5, 5)]
   \<and> call_regions [Fin 0, Fin 0.6, Fin 0.7, Fin 0, Fin 0, Fin 0.55, Fin 0] (Fin 0.5) 1 2
     \<noteq> Some [(1, 5)]"
  by (simp add: call_regions_def call_regions_idx_def where_above_def compress_def
      merge_filter_def)

section \<open>Properties of the Window Score Computer\<close>

lemma cumsum_from_length: "length (cumsum_from acc m) = length m"
  by (induction m arbitrary: acc) auto

lemma cumsum_from_width:
  "list_all (\<lambda>r. length r = t) m \<Longrightarrow> length acc = t \<Longrightarrow> k < length m \<Longrightarrow>
   length (cumsum_from acc m ! k) = t"
proof (induction m arbitrary: acc k)
  case Nil
  then show ?case by simp
next
  case (Cons r rs)
  then show ?case by (cases k) auto
qed

lemma cumsum_from_nth:
  "list_all (\<lambda>r. length r = t) m \<Longrightarrow> length acc = t \<Longrightarrow> c < t \<Longrightarrow> k < length m \<Longrightarrow>
   cumsum_from acc m ! k ! c = foldl fadd (acc ! c) (take (Suc k) (column c m))"
proof (induction m arbitrary: acc k)
  case Nil
  then show ?case by simp
next
  case (Cons r rs)
  have r: "length r = t" and rs: "list_all (\<lambda>r. length r = t) rs" using Cons.prems(1) by auto
  have acc': "length (map2 fadd acc r) = t" "map2 fadd acc r ! c = fadd (acc ! c) (r ! c)"
    using r Cons.prems(2,3) by auto
  show ?case
  proof (cases k)
    case 0
    then show ?thesis using acc' by (simp add: column_def)
  next
    case (Suc k')
    then have "k' < length rs" using Cons.prems(4) by simp
    from Cons.IH [OF rs acc'(1) Cons.prems(3) this] Suc acc'(2) show ?thesis
      by (simp add: column_def)
  qed
qed

lemma np_cumsum_zeros_length: "length (np_cumsum (replicate t (Fin 0) # m)) = Suc (length m)"
  by (simp add: np_cumsum_def cumsum_from_length)

lemma np_cumsum_zeros_width:
  "list_all (\<lambda>r. length r = t) m \<Longrightarrow> k \<le> length m \<Longrightarrow>
   length (np_cumsum (replicate t (Fin 0) # m) ! k) = t"
  by (cases k) (auto simp: np_cumsum_def cumsum_from_width)

lemma np_cumsum_zeros_nth:
  "list_all (\<lambda>r. length r = t) m \<Longrightarrow> c < t \<Longrightarrow> k \<le> length m \<Longrightarrow>
   np_cumsum (replicate t (Fin 0) # m) ! k ! c = fsum (take k (column c m))"
  by (cases k) (auto simp: np_cumsum_def cumsum_from_nth fsum_def)

lemma slice_in_range:
  assumes "0 \<le> lo" and "lo \<le> hi" and "hi \<le> int (length xs)"
  shows "length (slice xs lo hi) = nat (hi - lo)"
    and "j < nat (hi - lo) \<Longrightarrow> slice xs lo hi ! j = xs ! (nat lo + j)"
proof -
  have idx: "py_index (int (length xs)) lo = nat lo" "py_index (int (length xs)) hi = nat hi"
    using assms by (auto simp: py_index_def)
  have sub: "nat hi - nat lo = nat (hi - lo)" using assms by simp
  show "length (slice xs lo hi) = nat (hi - lo)"
    using assms by (simp add: slice_def idx sub Let_def)
  show "slice xs lo hi ! j = xs ! (nat lo + j)" if "j < nat (hi - lo)"
    using assms that by (simp add: slice_def idx sub Let_def)
qed

lemma window_diff:
  assumes rect: "list_all (\<lambda>r. length r = t) m"
    and s: "0 \<le> s" and w: "1 \<le> w" and nw: "0 < nw"
    and fit: "s + w + nw - 1 \<le> int (length m)"
  defines "cs \<equiv> np_cumsum (replicate t (Fin 0) # m)"
  defines "D \<equiv> map2 (map2 fsub) (slice cs (s + w) (s + w + nw)) (slice cs s (s + nw))"
  shows "np_binop fsub (slice cs (s + w) (s + w + nw)) (slice cs s (s + nw)) = Some D"
    and "length D = nat nw"
    and "j < nat nw \<Longrightarrow> length (D ! j) = t"
    and "j < nat nw \<Longrightarrow> c < t \<Longrightarrow>
         D ! j ! c = fsub (fsum (take (nat s + j + nat w) (column c m)))
                          (fsum (take (nat s + j) (column c m)))"
proof -
  have len: "int (length cs) = int (length m) + 1"
    by (simp add: cs_def np_cumsum_zeros_length)
  have l1: "length (slice cs (s + w) (s + w + nw)) = nat nw"
    using slice_in_range(1) [of "s + w" "s + w + nw" cs] s w nw fit len by simp
  have l2: "length (slice cs s (s + nw)) = nat nw"
    using slice_in_range(1) [of s "s + nw" cs] s w nw fit len by simp
  show "np_binop fsub (slice cs (s + w) (s + w + nw)) (slice cs s (s + nw)) = Some D"
    by (simp add: np_binop_def l1 l2 D_def)
  show "length D = nat nw" by (simp add: D_def l1 l2)
  have n1: "slice cs (s + w) (s + w + nw) ! j = cs ! (nat s + j + nat w)" if "j < nat nw"
  proof -
    have "slice cs (s + w) (s + w + nw) ! j = cs ! (nat (s + w) + j)"
      using slice_in_range(2) [of "s + w" "s + w + nw" cs j] s w nw fit len that by simp
    moreover have "nat (s + w) + j = nat s + j + nat w" using s w by simp
    ultimately show ?thesis by simp
  qed
  have n2: "slice cs s (s + nw) ! j = cs ! (nat s + j)" if "j < nat nw"
    using slice_in_range(2) [of s "s + nw" cs j] s w nw fit len that by simp
  have k1: "nat s + j + nat w \<le> length m" if "j < nat nw" using that s w nw fit by linarith
  have k2: "nat s + j \<le> length m" if "j < nat nw" using k1 [OF that] by simp
  have row: "D ! j = map2 fsub (cs ! (nat s + j + nat w)) (cs ! (nat s + j))" if "j < nat nw"
    using that by (simp add: D_def l1 l2 n1 n2)
  show "length (D ! j) = t" if "j < nat nw"
    using row [OF that] k1 [OF that] k2 [OF that] rect
    by (simp add: cs_def np_cumsum_zeros_width)
  show "D ! j ! c = fsub (fsum (take (nat s + j + nat w) (column c m)))
                          (fsum (take (nat s + j) (column c m)))" if "j < nat nw" "c < t"
    using row [OF that(1)] k1 [OF that(1)] k2 [OF that(1)] rect that(2)
    by (simp add: cs_def np_cumsum_zeros_width np_cumsum_zeros_nth)
qed

lemma n_cols_matrix: "is_matrix n t m \<Longrightarrow> 0 < n \<Longrightarrow> n_cols m = t"
  by (cases m) (auto simp: is_matrix_def n_cols_def)

lemma compute_window_scores_empty:
  "min e (int (length alt_vals)) - max s 0 - w + 1 \<le> 0 \<Longrightarrow>
   compute_window_scores alt_vals ref_vals s e w eps = Some []"
proof -
  assume le: "min e (int (length alt_vals)) - max s 0 - w + 1 \<le> 0"
  have clip: "(if s < 0 then 0 else s) = max s 0"
    "(if int (length alt_vals) < e then int (length alt_vals) else e) = min e (int (length alt_vals))"
    by auto
  show ?thesis
    by (simp only: compute_window_scores_def Let_def clip le if_True)
qed

lemma compute_window_scores_entries:
  assumes alt_vals: "is_matrix n t alt_vals" and ref_vals: "is_matrix n t ref_vals" and w: "1 \<le> w"
    and nw: "0 < min e (int n) - max s 0 - w + 1"
  shows "\<exists>res. compute_window_scores alt_vals ref_vals s e w eps = Some res \<and>
           length res = nat (min e (int n) - max s 0 - w + 1) \<and>
           (\<forall>j < length res. \<forall>c < t.
              res ! j ! c = prefix_score alt_vals ref_vals (nat (max s 0) + j) (nat w) eps c)"
proof -
  define s' where "s' = max s 0"
  define e' where "e' = min e (int n)"
  define nw' where "nw' = e' - s' - w + 1"
  define acs where "acs = np_cumsum (replicate t (Fin 0) # alt_vals)"
  define rcs where "rcs = np_cumsum (replicate t (Fin 0) # ref_vals)"
  define A where "A = map2 (map2 fsub) (slice acs (s' + w) (s' + w + nw')) (slice acs s' (s' + nw'))"
  define R where "R = map2 (map2 fsub) (slice rcs (s' + w) (s' + w + nw')) (slice rcs s' (s' + nw'))"
  define W where "W = Fin (real_of_int w)"
  define A' where "A' = np_scalar (\<lambda>x. fdiv x W) A"
  define R' where "R' = np_scalar (\<lambda>x. fadd x eps) (np_scalar (\<lambda>x. fdiv x W) R)"
  define res where "res = np_scalar (\<lambda>x. fsub x (Fin 1)) (map2 (map2 fdiv) A' R')"
  have s0: "0 \<le> s'" and pos: "0 < nw'" using nw by (auto simp: s'_def nw'_def e'_def)
  have n: "0 < n" using nw w by (auto simp: min_def max_def split: if_splits)
  have len: "length alt_vals = n" "length ref_vals = n" using alt_vals ref_vals by (auto simp: is_matrix_def)
  have rect: "list_all (\<lambda>r. length r = t) alt_vals" "list_all (\<lambda>r. length r = t) ref_vals"
    using alt_vals ref_vals by (auto simp: is_matrix_def)
  have fit: "s' + w + nw' - 1 \<le> int n" by (simp add: nw'_def e'_def)
  note da = window_diff [OF rect(1) s0 w pos, unfolded len, OF fit, folded acs_def, folded A_def]
  note dr = window_diff [OF rect(2) s0 w pos, unfolded len, OF fit, folded rcs_def, folded R_def]
  have clip: "(if s < 0 then 0 else s) = s'" "(if int n < e then int n else e) = e'"
    by (auto simp: s'_def e'_def)
  have lenA': "length A' = nat nw'" "length R' = nat nw'"
    using da(2) dr(2) by (simp_all add: A'_def R'_def np_scalar_def)
  have v: "vstack_zeros t alt_vals = Some (replicate t (Fin 0) # alt_vals)"
    "vstack_zeros t ref_vals = Some (replicate t (Fin 0) # ref_vals)"
    using rect by (simp_all add: vstack_zeros_def)
  have q: "np_binop fdiv A' R' = Some (map2 (map2 fdiv) A' R')"
    by (simp add: np_binop_def lenA')
  have notle: "\<not> nw' \<le> 0" using pos by simp
  have "compute_window_scores alt_vals ref_vals s e w eps = Some res"
    by (simp only: compute_window_scores_def Let_def len clip n_cols_matrix [OF alt_vals n]
        nw'_def [symmetric] notle if_False v bind.bind_lunit acs_def [symmetric]
        rcs_def [symmetric] da(1) dr(1) W_def [symmetric] A'_def [symmetric]
        R'_def [symmetric] q res_def)
  moreover have "length res = nat nw'"
    by (simp add: res_def np_scalar_def lenA')
  moreover have "res ! j ! c = prefix_score alt_vals ref_vals (nat s' + j) (nat w) eps c"
    if j: "j < nat nw'" and c: "c < t" for j c
  proof -
    have "res ! j ! c = fsub (fdiv (A' ! j ! c) (R' ! j ! c)) (Fin 1)"
      using j c da(3) [OF j] dr(3) [OF j] da(2) dr(2)
      by (simp add: res_def np_scalar_def lenA' A'_def R'_def)
    moreover have "A' ! j ! c = fdiv (A ! j ! c) W"
      using j c da(3) [OF j] da(2) by (simp add: A'_def np_scalar_def)
    moreover have "R' ! j ! c = fadd (fdiv (R ! j ! c) W) eps"
      using j c dr(3) [OF j] dr(2) by (simp add: R'_def np_scalar_def)
    ultimately show ?thesis
      using da(4) [OF j c] dr(4) [OF j c] w
      by (simp add: prefix_score_def W_def)
  qed
  ultimately show ?thesis
    unfolding s'_def [symmetric] e'_def [symmetric] nw'_def [symmetric] by auto
qed

lemma fadd_NaN [simp]: "fadd x NaN = NaN"
  by (cases x) auto

lemma fdiv_NaN [simp]: "fdiv x NaN = NaN"
  by (cases x) auto

lemma fsub_NaN [simp]: "fsub NaN y = NaN" "fsub x NaN = NaN"
  by (simp_all add: fsub_def)

lemma foldl_fadd_NaN: "foldl fadd NaN xs = NaN"
  by (induction xs) auto

lemma foldl_fadd_has_NaN: "NaN \<in> set xs \<Longrightarrow> foldl fadd a xs = NaN"
  by (induction xs arbitrary: a) (auto simp: foldl_fadd_NaN)

lemma fsum_take_NaN:
  assumes "p < k" and "p < length m" and "m ! p ! c = NaN"
  shows "fsum (take k (column c m)) = NaN"
proof -
  have "column c m ! p = NaN" using assms by (simp add: column_def)
  moreover have "p < length (take k (column c m))" using assms by (simp add: column_def)
  ultimately have "NaN \<in> set (take k (column c m))"
    by (metis nth_mem nth_take assms(1))
  then show ?thesis by (simp add: fsum_def foldl_fadd_has_NaN)
qed

lemma prefix_score_NaN:
  assumes "p < k + w" and "p < length alt_vals" and "length ref_vals = length alt_vals"
    and "alt_vals ! p ! c = NaN \<or> ref_vals ! p ! c = NaN"
  shows "prefix_score alt_vals ref_vals k w eps c = NaN"
  using assms(4)
proof
  assume "alt_vals ! p ! c = NaN"
  then have "fsum (take (k + w) (column c alt_vals)) = NaN"
    using fsum_take_NaN [of p "k + w" alt_vals c] assms by simp
  then show ?thesis by (simp add: prefix_score_def)
next
  assume "ref_vals ! p ! c = NaN"
  then have "fsum (take (k + w) (column c ref_vals)) = NaN"
    using fsum_take_NaN [of p "k + w" ref_vals c] assms by simp
  then show ?thesis by (simp add: prefix_score_def)
qed

text \<open>
  Claim C7. For matrices of \<open>n\<close> rows, every start and end offset and every window size
  \<open>w \<ge> 1\<close>, \<open>compute_window_scores\<close> clips the start up to \<open>0\<close> and the end down to
  \<open>n\<close>, returns without an error, and the array it returns has
  \<open>max 0 (clipped end - clipped start - w + 1)\<close> rows; it is the empty array when that
  count is not positive.
\<close>

theorem window_count:
  assumes "is_matrix n t alt_vals" and "is_matrix n t ref_vals" and "1 \<le> w"
  shows "\<exists>res. compute_window_scores alt_vals ref_vals s e w eps = Some res \<and>
           int (length res) = max 0 (min e (int n) - max s 0 - w + 1) \<and>
           (min e (int n) - max s 0 - w + 1 \<le> 0 \<longrightarrow> res = [])"
proof (cases "min e (int n) - max s 0 - w + 1 \<le> 0")
  case True
  have "length alt_vals = n" using assms(1) by (simp add: is_matrix_def)
  then show ?thesis using compute_window_scores_empty [of e alt_vals s w ref_vals eps] True by simp
next
  case False
  then have "0 < min e (int n) - max s 0 - w + 1" by simp
  from compute_window_scores_entries [OF assms this, of eps] False show ?thesis by auto
qed

text \<open>
  Three samples, start \<open>-4\<close> clipped to \<open>0\<close>, end \<open>7\<close> clipped to \<open>3\<close>, window size \<open>2\<close>:
  two windows.
\<close>

theorem window_count_witness:
  "is_matrix 3 2 [[Fin 1, Fin 2], [Fin 3, Fin 2], [Fin 5, Fin 0]]
   \<and> is_matrix 3 2 [[Fin 1, Fin 1], [Fin 1, Fin 1], [Fin 1, Fin (- 1)]]
   \<and> (1 :: int) \<le> 2
   \<and> (\<exists>res. compute_window_scores [[Fin 1, Fin 2], [Fin 3, Fin 2], [Fin 5, Fin 0]]
                [[Fin 1, Fin 1], [Fin 1, Fin 1], [Fin 1, Fin (- 1)]] (- 4) 7 2 (Fin 0) = Some res
             \<and> int (length res) = max 0 (min 7 (int 3) - max (- 4) 0 - 2 + 1))
   \<and> int (length [[Fin 1, Fin 1], [Fin 3, PInf]]) = 2"
proof -
  have a: "is_matrix 3 2 [[Fin 1, Fin 2], [Fin 3, Fin 2], [Fin 5, Fin 0]]"
    and r: "is_matrix 3 2 [[Fin 1, Fin 1], [Fin 1, Fin 1], [Fin 1, Fin (- 1)]]"
    by (simp_all add: is_matrix_def)
  from window_count [OF a r, of 2 "- 4" 7 "Fin 0"] a r show ?thesis by auto
qed

text \<open>
  Claim C4. A not-a-number sample at row \<open>p\<close> of a channel, in the alternate or in the
  reference matrix, inside the scanned span, makes the score of that channel
  not-a-number for every window whose span includes \<open>p\<close> and for every window that
  starts after \<open>p\<close>, whatever the samples of that later window are.
\<close>

theorem nan_reaches_later_windows:
  assumes "is_matrix n t alt_vals" and "is_matrix n t ref_vals" and "1 \<le> w" and "c < t"
    and "max s 0 \<le> int p" and "int p < min e (int n)"
    and "alt_vals ! p ! c = NaN \<or> ref_vals ! p ! c = NaN"
    and "int j < min e (int n) - max s 0 - w + 1"
    and "(max s 0 + int j \<le> int p \<and> int p < max s 0 + int j + w) \<or> int p < max s 0 + int j"
  shows "\<exists>res. compute_window_scores alt_vals ref_vals s e w eps = Some res \<and> j < length res \<and>
           res ! j ! c = NaN"
proof -
  have pos: "0 < min e (int n) - max s 0 - w + 1" using assms(8) by linarith
  obtain res where res: "compute_window_scores alt_vals ref_vals s e w eps = Some res"
    "length res = nat (min e (int n) - max s 0 - w + 1)"
    "\<forall>j < length res. \<forall>c < t. res ! j ! c = prefix_score alt_vals ref_vals (nat (max s 0) + j) (nat w) eps c"
    using compute_window_scores_entries [OF assms(1,2,3) pos, of eps] by blast
  have j: "j < length res" using res(2) assms(8) by linarith
  have len: "length alt_vals = n" "length ref_vals = n" using assms(1,2) by (auto simp: is_matrix_def)
  have "p < nat (max s 0) + j + nat w" using assms(3,9) by linarith
  moreover have "p < length alt_vals" using assms(6) len by simp
  ultimately have "prefix_score alt_vals ref_vals (nat (max s 0) + j) (nat w) eps c = NaN"
    using prefix_score_NaN [of p "nat (max s 0) + j" "nat w" alt_vals ref_vals c eps] len assms(7)
    by simp
  then show ?thesis using res(1,3) j assms(4) by auto
qed

text \<open>
  A not-a-number sample at row \<open>1\<close>. The window that starts at row \<open>2\<close> covers the samples
  \<open>2\<close> and \<open>3\<close>, and its score is not-a-number all the same.
\<close>

theorem nan_reaches_later_windows_witness:
  "is_matrix 5 1 [[Fin 1], [NaN], [Fin 2], [Fin 3], [Fin 4]]
   \<and> is_matrix 5 1 [[Fin 1], [Fin 1], [Fin 1], [Fin 1], [Fin 1]]
   \<and> [[Fin 1], [NaN], [Fin 2], [Fin 3], [Fin 4]] ! 1 ! 0 = NaN
   \<and> take 2 (drop 2 (column 0 [[Fin 1], [NaN], [Fin 2], [Fin 3], [Fin 4]])) = [Fin 2, Fin 3]
   \<and> compute_window_scores [[Fin 1], [NaN], [Fin 2], [Fin 3], [Fin 4]]
        [[Fin 1], [Fin 1], [Fin 1], [Fin 1], [Fin 1]] 0 5 2 (Fin 1)
      = Some [[NaN], [NaN], [NaN], [NaN]]
   \<and> [[NaN], [NaN], [NaN], [NaN]] ! 2 ! 0 = NaN"
proof -
  have a: "is_matrix 5 1 [[Fin 1], [NaN], [Fin 2], [Fin 3], [Fin 4]]"
    and r: "is_matrix 5 1 [[Fin 1], [Fin 1], [Fin 1], [Fin 1], [Fin 1]]"
    by (simp_all add: is_matrix_def)
  have ev: "compute_window_scores [[Fin 1], [NaN], [Fin 2], [Fin 3], [Fin 4]]
        [[Fin 1], [Fin 1], [Fin 1], [Fin 1], [Fin 1]] 0 5 2 (Fin 1)
      = Some [[NaN], [NaN], [NaN], [NaN]]"
    by code_simp
  have "\<exists>res. compute_window_scores [[Fin 1], [NaN], [Fin 2], [Fin 3], [Fin 4]]
        [[Fin 1], [Fin 1], [Fin 1], [Fin 1], [Fin 1]] 0 5 2 (Fin 1) = Some res
        \<and> 2 < length res \<and> res ! 2 ! 0 = NaN"
    by (rule nan_reaches_later_windows [OF a r, where p = 1]) simp_all
  then show ?thesis using a r ev by (simp add: column_def)
qed

section \<open>Properties of the Indel Aligner\<close>

lemma py_index_le: "py_index (int n) i \<le> n"
  by (auto simp: py_index_def)

lemma py_index_in_range: "0 \<le> i \<Longrightarrow> i \<le> int n \<Longrightarrow> py_index (int n) i = nat i"
  by (auto simp: py_index_def)

lemma py_index_lower: "0 \<le> k \<Longrightarrow> k \<le> i \<Longrightarrow> min (nat k) n \<le> py_index (int n) i"
  by (auto simp: py_index_def)

lemma splice_length:
  "a \<le> length xs \<Longrightarrow> length (take a xs @ src @ drop (a + length src) xs)
     = a + length src + (length xs - (a + length src))"
  by simp

lemma splice_nth:
  assumes "a \<le> b" and "b \<le> length xs" and "length src = b - a" and "i < length xs"
  shows "(take a xs @ src @ drop b xs) ! i
           = (if i < a then xs ! i else if i < b then src ! (i - a) else xs ! i)"
proof -
  have la: "length (take a xs) = a" using assms by simp
  show ?thesis
  proof (cases "i < a")
    case True
    then show ?thesis using la by (simp add: nth_append)
  next
    case False
    show ?thesis
    proof (cases "i < b")
      case True
      then have "i - a < b - a" using False by simp
      then show ?thesis using True False la assms by (simp add: nth_append)
    next
      case False
      then have "\<not> i < a" using assms(1) by simp
      moreover have "b + (i - a - (b - a)) = i" using False assms(1) by simp
      moreover have "\<not> i - a < b - a" using False assms(1) by simp
      ultimately show ?thesis using False la assms by (simp add: nth_append)
    qed
  qed
qed

lemma slice_assign_frame:
  assumes "slice_assign xs lo hi src = Some ys"
  shows "length ys = length xs"
    and "i < py_index (int (length xs)) lo \<Longrightarrow> ys ! i = xs ! i"
proof -
  define a where "a = py_index (int (length xs)) lo"
  define b where "b = py_index (int (length xs)) hi"
  have le: "a \<le> length xs" "b \<le> length xs" by (simp_all add: a_def b_def py_index_le)
  have ys: "ys = take a xs @ src @ drop (a + (b - a)) xs \<and> length src = b - a
      \<or> ys = take a xs @ replicate (b - a) (hd src) @ drop (a + (b - a)) xs"
    using assms by (auto simp: slice_assign_def Let_def a_def b_def split: if_splits)
  then show "length ys = length xs" using le by auto
  show "ys ! i = xs ! i" if "i < py_index (int (length xs)) lo"
    using ys that le by (auto simp: a_def [symmetric] nth_append)
qed

lemma slice_assign_nan_frame:
  shows "length (slice_assign_nan xs lo hi) = length xs"
    and "i < py_index (int (length xs)) lo \<Longrightarrow> slice_assign_nan xs lo hi ! i = xs ! i"
proof -
  define a where "a = py_index (int (length xs)) lo"
  define b where "b = py_index (int (length xs)) hi"
  have le: "a \<le> length xs" "b \<le> length xs" by (simp_all add: a_def b_def py_index_le)
  have ys: "slice_assign_nan xs lo hi
      = take a xs @ map nan_row (take (b - a) (drop a xs)) @ drop (a + (b - a)) xs"
    by (simp add: slice_assign_nan_def Let_def a_def b_def)
  show "length (slice_assign_nan xs lo hi) = length xs" using le by (auto simp: ys)
  show "slice_assign_nan xs lo hi ! i = xs ! i" if "i < py_index (int (length xs)) lo"
    using that le by (simp add: ys a_def [symmetric] nth_append)
qed

lemma slice_assign_in_range:
  assumes "0 \<le> lo" and "lo \<le> hi" and "hi \<le> int (length xs)" and "length src = nat (hi - lo)"
  shows "slice_assign xs lo hi src = Some (take (nat lo) xs @ src @ drop (nat hi) xs)"
proof -
  have "py_index (int (length xs)) lo = nat lo" "py_index (int (length xs)) hi = nat hi"
    using assms by (simp_all add: py_index_in_range)
  moreover have "nat hi - nat lo = nat (hi - lo)" "nat lo + nat (hi - lo) = nat hi"
    using assms by simp_all
  ultimately show ?thesis using assms(4) by (simp add: slice_assign_def Let_def)
qed

lemma slice_assign_nan_in_range:
  assumes "0 \<le> lo" and "lo \<le> hi" and "hi \<le> int (length xs)"
  shows "slice_assign_nan xs lo hi
           = take (nat lo) xs @ map nan_row (take (nat (hi - lo)) (drop (nat lo) xs))
               @ drop (nat hi) xs"
proof -
  have "py_index (int (length xs)) lo = nat lo" "py_index (int (length xs)) hi = nat hi"
    using assms by (simp_all add: py_index_in_range)
  moreover have "nat hi - nat lo = nat (hi - lo)" "nat lo + nat (hi - lo) = nat hi"
    using assms by simp_all
  ultimately show ?thesis by (simp add: slice_assign_nan_def Let_def)
qed

lemma align_deletion:
  assumes off: "off = position variant - interval_start interval"
    and len: "len = interval_end interval - interval_start interval"
    and n: "int (length (reference vout)) = len"
    and o: "0 \<le> off" and fit: "off + la \<le> len" and la: "0 < la"
  shows "\<exists>vout'. align_reference_for_indel variant interval vout la = Some vout' \<and>
           alternate vout' = alternate vout \<and>
           length (reference vout') = length (reference vout) \<and>
           (\<forall>i. off \<le> i \<and> i < len - la \<longrightarrow>
                reference vout' ! nat i = reference vout ! nat (i + la)) \<and>
           (\<forall>i. len - la \<le> i \<and> i < len \<longrightarrow>
                reference vout' ! nat i = nan_row (reference vout ! nat i))"
proof -
  define vals where "vals = reference vout"
  define src where "src = slice vals (off + la) len"
  define vals1 where "vals1 = take (nat off) vals @ src @ drop (nat (len - la)) vals"
  define fill where "fill = map nan_row (take (nat la) (drop (nat (len - la)) vals1))"
  define vals2 where "vals2 = take (nat (len - la)) vals1 @ fill @ drop (nat len) vals1"
  have n': "int (length vals) = len" using n by (simp add: vals_def)
  have src: "length src = nat (len - la - off)"
    "\<And>j. j < nat (len - la - off) \<Longrightarrow> src ! j = vals ! (nat (off + la) + j)"
    using slice_in_range [of "off + la" len vals] o fit la n'
    by (simp_all add: src_def algebra_simps)
  have a1: "slice_assign vals off (len - la) src = Some vals1"
    using slice_assign_in_range [of off "len - la" vals src] o fit la n' src(1)
    by (simp add: vals1_def)
  have l1: "length vals1 = length vals"
    using slice_assign_frame(1) [OF a1] .
  have a2: "slice_assign_nan vals1 (len - la) len = vals2"
    using slice_assign_nan_in_range [of "len - la" len vals1] o fit la n' l1
    by (simp add: vals2_def fill_def)
  have run: "align_reference_for_indel variant interval vout la
      = Some (vout\<lparr>reference := vals2\<rparr>)"
    using la a1 a2
    by (simp add: align_reference_for_indel_def Let_def off [symmetric] len [symmetric]
        vals_def [symmetric] src_def [symmetric])
  have v1: "vals1 ! i = (if i < nat off then vals ! i
              else if i < nat (len - la) then src ! (i - nat off) else vals ! i)"
    if "i < length vals" for i
    unfolding vals1_def
    by (rule splice_nth) (use o fit la n' src(1) that in auto)
  have lf: "length fill = nat la"
    using l1 n' o fit la by (simp add: fill_def)
  have v2: "vals2 ! i = (if i < nat (len - la) then vals1 ! i
              else if i < nat len then fill ! (i - nat (len - la)) else vals1 ! i)"
    if "i < length vals" for i
    unfolding vals2_def
    by (rule splice_nth) (use o fit la n' l1 lf that in auto)
  have shifted: "vals2 ! nat i = vals ! nat (i + la)" if "off \<le> i" "i < len - la" for i
  proof -
    have i: "nat i < length vals" using that o la n' by linarith
    have "vals2 ! nat i = src ! (nat i - nat off)"
      using v2 [OF i] v1 [OF i] that o by simp
    also have "\<dots> = vals ! (nat (off + la) + (nat i - nat off))"
      using src(2) [of "nat i - nat off"] that o by simp
    also have "nat (off + la) + (nat i - nat off) = nat (i + la)"
      using that o la by linarith
    finally show ?thesis .
  qed
  have filled: "vals2 ! nat i = nan_row (vals ! nat i)" if "len - la \<le> i" "i < len" for i
  proof -
    have i: "nat i < length vals" using that o fit la n' by linarith
    have lo: "\<not> nat i < nat (len - la)" "nat i < nat len" "\<not> nat i < nat off"
      using that o fit la by linarith+
    have k: "nat i - nat (len - la) < nat la" using that o fit la by linarith
    have "vals2 ! nat i = fill ! (nat i - nat (len - la))"
      by (simp only: v2 [OF i] lo if_False if_True)
    also have "\<dots> = nan_row (vals1 ! (nat (len - la) + (nat i - nat (len - la))))"
      using k l1 n' o fit la by (simp add: fill_def)
    also have "nat (len - la) + (nat i - nat (len - la)) = nat i"
      using that o fit la by linarith
    also have "vals1 ! nat i = vals ! nat i"
      by (simp only: v1 [OF i] lo if_False if_True)
    finally show ?thesis .
  qed
  have "length vals2 = length vals"
    using slice_assign_nan_frame(1) [of vals1 "len - la" len] a2 l1 by simp
  then show ?thesis
    using run shifted filled by (auto simp: vals_def)
qed

lemma align_insertion:
  assumes off: "off = position variant - interval_start interval"
    and len: "len = interval_end interval - interval_start interval"
    and n: "int (length (reference vout)) = len"
    and o: "0 \<le> off" and fit: "off - la \<le> len" and la: "la < 0"
  shows "\<exists>vout'. align_reference_for_indel variant interval vout la = Some vout' \<and>
           alternate vout' = alternate vout \<and>
           length (reference vout') = length (reference vout) \<and>
           (\<forall>i. off - la \<le> i \<and> i < len \<longrightarrow>
                reference vout' ! nat i = reference vout ! nat (i + la)) \<and>
           (\<forall>i. off \<le> i \<and> i < off - la \<longrightarrow>
                reference vout' ! nat i = nan_row (reference vout ! nat i))"
proof -
  define vals where "vals = reference vout"
  define src where "src = slice vals off (len + la)"
  define vals1 where "vals1 = take (nat (off - la)) vals @ src @ drop (nat len) vals"
  define fill where "fill = map nan_row (take (nat (- la)) (drop (nat off) vals1))"
  define vals2 where "vals2 = take (nat off) vals1 @ fill @ drop (nat (off - la)) vals1"
  have n': "int (length vals) = len" using n by (simp add: vals_def)
  have src: "length src = nat (len + la - off)"
    "\<And>j. j < nat (len + la - off) \<Longrightarrow> src ! j = vals ! (nat off + j)"
    using slice_in_range [of off "len + la" vals] o fit la n'
    by (simp_all add: src_def algebra_simps)
  have a1: "slice_assign vals (off - la) len src = Some vals1"
    using slice_assign_in_range [of "off - la" len vals src] o fit la n' src(1)
    by (simp add: vals1_def algebra_simps)
  have l1: "length vals1 = length vals"
    using slice_assign_frame(1) [OF a1] .
  have a2: "slice_assign_nan vals1 off (off - la) = vals2"
    using slice_assign_nan_in_range [of off "off - la" vals1] o fit la n' l1
    by (simp add: vals2_def fill_def)
  have run: "align_reference_for_indel variant interval vout la
      = Some (vout\<lparr>reference := vals2\<rparr>)"
    using la a1 a2
    by (simp add: align_reference_for_indel_def Let_def off [symmetric] len [symmetric]
        vals_def [symmetric] src_def [symmetric])
  have v1: "vals1 ! i = (if i < nat (off - la) then vals ! i
              else if i < nat len then src ! (i - nat (off - la)) else vals ! i)"
    if "i < length vals" for i
    unfolding vals1_def
    by (rule splice_nth) (use o fit la n' src(1) that in auto)
  have lf: "length fill = nat (- la)"
    using l1 n' o fit la by (simp add: fill_def)
  have v2: "vals2 ! i = (if i < nat off then vals1 ! i
              else if i < nat (off - la) then fill ! (i - nat off) else vals1 ! i)"
    if "i < length vals" for i
    unfolding vals2_def
    by (rule splice_nth) (use o fit la n' l1 lf that in auto)
  have shifted: "vals2 ! nat i = vals ! nat (i + la)" if "off - la \<le> i" "i < len" for i
  proof -
    have i: "nat i < length vals" using that o la n' by linarith
    have lo: "\<not> nat i < nat off" "\<not> nat i < nat (off - la)" "nat i < nat len"
      using that o fit la by linarith+
    have k: "nat i - nat (off - la) < nat (len + la - off)" using that o fit la by linarith
    have "vals2 ! nat i = vals1 ! nat i"
      by (simp only: v2 [OF i] lo if_False if_True)
    also have "\<dots> = src ! (nat i - nat (off - la))"
      by (simp only: v1 [OF i] lo if_False if_True)
    also have "\<dots> = vals ! (nat off + (nat i - nat (off - la)))"
      using src(2) [OF k] .
    also have "nat off + (nat i - nat (off - la)) = nat (i + la)"
      using that o la by linarith
    finally show ?thesis .
  qed
  have filled: "vals2 ! nat i = nan_row (vals ! nat i)" if "off \<le> i" "i < off - la" for i
  proof -
    have i: "nat i < length vals" using that o fit la n' by linarith
    have lo: "\<not> nat i < nat off" "nat i < nat (off - la)"
      using that o fit la by linarith+
    have k: "nat i - nat off < nat (- la)" using that o fit la by linarith
    have "vals2 ! nat i = fill ! (nat i - nat off)"
      by (simp only: v2 [OF i] lo if_False if_True)
    also have "\<dots> = nan_row (vals1 ! (nat off + (nat i - nat off)))"
      using k l1 n' o fit la by (simp add: fill_def)
    also have "nat off + (nat i - nat off) = nat i"
      using that o by linarith
    also have "vals1 ! nat i = vals ! nat i"
      by (simp only: v1 [OF i] lo if_False if_True)
    finally show ?thesis .
  qed
  have "length vals2 = length vals"
    using slice_assign_nan_frame(1) [of vals1 off "off - la"] a2 l1 by simp
  then show ?thesis
    using run shifted filled by (auto simp: vals_def)
qed

lemma slice_assign_nan_nth:
  assumes "i < length xs"
  shows "slice_assign_nan xs lo hi ! i
           = (if py_index (int (length xs)) lo \<le> i \<and> i < py_index (int (length xs)) hi
              then nan_row (xs ! i) else xs ! i)"
proof -
  define a where "a = py_index (int (length xs)) lo"
  define b where "b = py_index (int (length xs)) hi"
  have le: "a \<le> length xs" "b \<le> length xs" by (simp_all add: a_def b_def py_index_le)
  have ys: "slice_assign_nan xs lo hi
      = take a xs @ map nan_row (take (b - a) (drop a xs)) @ drop (a + (b - a)) xs"
    by (simp add: slice_assign_nan_def Let_def a_def b_def)
  show ?thesis
  proof (cases "a \<le> b")
    case True
    then have ab: "a + (b - a) = b" by simp
    have "(take a xs @ map nan_row (take (b - a) (drop a xs)) @ drop b xs) ! i
        = (if i < a then xs ! i
           else if i < b then map nan_row (take (b - a) (drop a xs)) ! (i - a) else xs ! i)"
      by (rule splice_nth) (use True le assms in auto)
    moreover have "map nan_row (take (b - a) (drop a xs)) ! (i - a) = nan_row (xs ! i)"
      if "a \<le> i" "i < b"
      using that le by simp
    ultimately show ?thesis
      unfolding ys ab a_def [symmetric] b_def [symmetric] by auto
  next
    case False
    then have "slice_assign_nan xs lo hi = xs" unfolding ys by simp
    then show ?thesis using False unfolding a_def [symmetric] b_def [symmetric] by auto
  qed
qed

lemma align_deletion_past_end:
  assumes off: "off = position variant - interval_start interval"
    and len: "len = interval_end interval - interval_start interval"
    and n: "int (length (reference vout)) = len"
    and o: "0 \<le> off" and la: "0 < la" and short: "la \<le> len" and past: "len < off + la"
  shows "\<exists>vout'. align_reference_for_indel variant interval vout la = Some vout' \<and>
           alternate vout' = alternate vout \<and>
           length (reference vout') = length (reference vout) \<and>
           (\<forall>i. off \<le> i \<and> i < len - la \<longrightarrow>
                reference vout' ! nat i = reference vout ! nat (i + la)) \<and>
           (\<forall>i. len - la \<le> i \<and> i < len \<longrightarrow>
                reference vout' ! nat i = nan_row (reference vout ! nat i))"
proof -
  define vals where "vals = reference vout"
  have n': "int (length vals) = len" using n by (simp add: vals_def)
  have src: "slice vals (off + la) len = []"
    using o la past n' by (simp add: slice_def Let_def py_index_def)
  have k: "py_index (int (length vals)) (len - la) \<le> py_index (int (length vals)) off"
    using o la short past n' by (auto simp: py_index_def min_def)
  have a1: "slice_assign vals off (len - la) (slice vals (off + la) len) = Some vals"
    unfolding src by (simp add: slice_assign_def Let_def k)
  have run: "align_reference_for_indel variant interval vout la
      = Some (vout\<lparr>reference := slice_assign_nan vals (len - la) len\<rparr>)"
    using la a1
    by (simp add: align_reference_for_indel_def Let_def off [symmetric] len [symmetric]
        vals_def [symmetric])
  have idx: "py_index (int (length vals)) (len - la) = nat (len - la)"
    "py_index (int (length vals)) len = nat len"
    using la short n' by (auto simp: py_index_def)
  have filled: "slice_assign_nan vals (len - la) len ! nat i = nan_row (vals ! nat i)"
    if "len - la \<le> i" "i < len" for i
  proof -
    have i: "nat i < length vals" using that la short n' by linarith
    have "nat (len - la) \<le> nat i \<and> nat i < nat len" using that la short by linarith
    then show ?thesis using slice_assign_nan_nth [OF i, of "len - la" len] idx by simp
  qed
  have "length (slice_assign_nan vals (len - la) len) = length vals"
    by (rule slice_assign_nan_frame(1))
  moreover have "\<not> (off \<le> i \<and> i < len - la)" for i using past by linarith
  ultimately show ?thesis
    using run filled by (auto simp: vals_def)
qed

lemma align_insertion_past_end:
  assumes off: "off = position variant - interval_start interval"
    and len: "len = interval_end interval - interval_start interval"
    and n: "int (length (reference vout)) = len"
    and o: "0 \<le> off" and la: "la < 0" and short: "- la \<le> len" and past: "len < off - la"
  shows "\<exists>vout'. align_reference_for_indel variant interval vout la = Some vout' \<and>
           alternate vout' = alternate vout \<and>
           length (reference vout') = length (reference vout) \<and>
           (\<forall>i. off - la \<le> i \<and> i < len \<longrightarrow>
                reference vout' ! nat i = reference vout ! nat (i + la)) \<and>
           (\<forall>i. off \<le> i \<and> i < off - la \<and> i < len \<longrightarrow>
                reference vout' ! nat i = nan_row (reference vout ! nat i))"
proof -
  define vals where "vals = reference vout"
  have n': "int (length vals) = len" using n by (simp add: vals_def)
  have src: "slice vals off (len + la) = []"
    using o la short past n' by (auto simp: slice_def Let_def py_index_def min_def)
  have k: "py_index (int (length vals)) len \<le> py_index (int (length vals)) (off - la)"
    using o la short past n' by (auto simp: py_index_def min_def)
  have a1: "slice_assign vals (off - la) len (slice vals off (len + la)) = Some vals"
    unfolding src by (simp add: slice_assign_def Let_def k)
  have run: "align_reference_for_indel variant interval vout la
      = Some (vout\<lparr>reference := slice_assign_nan vals off (off - la)\<rparr>)"
    using la a1
    by (simp add: align_reference_for_indel_def Let_def off [symmetric] len [symmetric]
        vals_def [symmetric])
  have filled: "slice_assign_nan vals off (off - la) ! nat i = nan_row (vals ! nat i)"
    if "off \<le> i" "i < len" for i
  proof -
    have i: "nat i < length vals" using that o n' by linarith
    have "py_index (int (length vals)) off = nat off"
      using that o n' by (auto simp: py_index_def)
    moreover have "py_index (int (length vals)) (off - la) = length vals"
      using o la past n' by (auto simp: py_index_def min_def)
    moreover have "nat off \<le> nat i" using that o by linarith
    ultimately show ?thesis using slice_assign_nan_nth [OF i, of off "off - la"] i by simp
  qed
  have "length (slice_assign_nan vals off (off - la)) = length vals"
    by (rule slice_assign_nan_frame(1))
  moreover have "\<not> (off - la \<le> i \<and> i < len)" for i using past by linarith
  ultimately show ?thesis
    using run filled by (auto simp: vals_def)
qed

text \<open>
  Claim C8, as amended. The reference matrix has one row per position of the interval,
  the mutation offset is not negative, and the indel is no longer than the interval
  (\<open>|length_alter| \<le> interval length\<close>). For a deletion, the aligner moves the rows
  from the offset on left by \<open>length_alter\<close> (row \<open>i\<close> takes the value of row
  \<open>i + length_alter\<close>, for \<open>offset \<le> i < length - length_alter\<close>) and fills the last
  \<open>length_alter\<close> rows of the interval with not-a-number. For an insertion of \<open>k\<close> bases,
  it moves the rows from the offset on right by \<open>k\<close> (row \<open>i\<close> takes the value of row
  \<open>i - k\<close>, for \<open>offset + k \<le> i < length\<close>) and fills the rows \<open>offset \<le> i < offset + k\<close>
  that lie in the interval with not-a-number. For a substitution it returns its input.
\<close>

theorem indel_alignment:
  assumes "off = position variant - interval_start interval"
    and "len = interval_end interval - interval_start interval"
    and "int (length (reference vout)) = len"
    and "0 \<le> off" and "\<bar>length_alter\<bar> \<le> len"
  shows
    "(0 < length_alter \<longrightarrow>
        (\<exists>vout'. align_reference_for_indel variant interval vout length_alter = Some vout' \<and>
           length (reference vout') = length (reference vout) \<and>
           (\<forall>i. off \<le> i \<and> i < len - length_alter \<longrightarrow>
                reference vout' ! nat i = reference vout ! nat (i + length_alter)) \<and>
           (\<forall>i. len - length_alter \<le> i \<and> i < len \<longrightarrow>
                reference vout' ! nat i = nan_row (reference vout ! nat i)))) \<and>
     (length_alter < 0 \<longrightarrow>
        (\<exists>vout'. align_reference_for_indel variant interval vout length_alter = Some vout' \<and>
           length (reference vout') = length (reference vout) \<and>
           (\<forall>i. off - length_alter \<le> i \<and> i < len \<longrightarrow>
                reference vout' ! nat i = reference vout ! nat (i + length_alter)) \<and>
           (\<forall>i. off \<le> i \<and> i < off - length_alter \<and> i < len \<longrightarrow>
                reference vout' ! nat i = nan_row (reference vout ! nat i)))) \<and>
     (length_alter = 0 \<longrightarrow>
        align_reference_for_indel variant interval vout length_alter = Some vout)"
proof (intro conjI impI)
  assume la: "0 < length_alter"
  then have short: "length_alter \<le> len" using assms(5) by simp
  show "\<exists>vout'. align_reference_for_indel variant interval vout length_alter = Some vout' \<and>
           length (reference vout') = length (reference vout) \<and>
           (\<forall>i. off \<le> i \<and> i < len - length_alter \<longrightarrow>
                reference vout' ! nat i = reference vout ! nat (i + length_alter)) \<and>
           (\<forall>i. len - length_alter \<le> i \<and> i < len \<longrightarrow>
                reference vout' ! nat i = nan_row (reference vout ! nat i))"
  proof (cases "off + length_alter \<le> len")
    case True
    from align_deletion [OF assms(1,2,3,4) True la] show ?thesis by blast
  next
    case False
    then have "len < off + length_alter" by simp
    from align_deletion_past_end [OF assms(1,2,3,4) la short this] show ?thesis by blast
  qed
next
  assume la: "length_alter < 0"
  then have short: "- length_alter \<le> len" using assms(5) by simp
  show "\<exists>vout'. align_reference_for_indel variant interval vout length_alter = Some vout' \<and>
           length (reference vout') = length (reference vout) \<and>
           (\<forall>i. off - length_alter \<le> i \<and> i < len \<longrightarrow>
                reference vout' ! nat i = reference vout ! nat (i + length_alter)) \<and>
           (\<forall>i. off \<le> i \<and> i < off - length_alter \<and> i < len \<longrightarrow>
                reference vout' ! nat i = nan_row (reference vout ! nat i))"
  proof (cases "off - length_alter \<le> len")
    case True
    from align_insertion [OF assms(1,2,3,4) True la] show ?thesis by blast
  next
    case False
    then have "len < off - length_alter" by simp
    from align_insertion_past_end [OF assms(1,2,3,4) la short this] show ?thesis by blast
  qed
next
  assume "length_alter = 0"
  then show "align_reference_for_indel variant interval vout length_alter = Some vout"
    by (simp add: align_reference_for_indel_def)
qed

text \<open>
  An interval of six positions: a deletion of two bases at offset \<open>2\<close>, an insertion of
  two bases at offset \<open>2\<close>, and an insertion of three bases at offset \<open>4\<close>, whose span
  passes the end of the interval: rows \<open>4\<close> and \<open>5\<close> are filled and nothing is shifted.
\<close>

theorem indel_alignment_witness:
  "(2 :: int) = position \<lparr>chromosome = ''chr1'', position = 12, reference_bases = ''ACG'',
                           alternate_bases = ''A''\<rparr>
                - interval_start \<lparr>interval_start = 10, interval_end = 16\<rparr>
   \<and> int (length [[Fin 1], [Fin 2], [Fin 3], [Fin 4], [Fin 5], [Fin 6]]) = 16 - 10
   \<and> (0 :: int) \<le> 2 \<and> \<bar>2 :: int\<bar> \<le> 6 \<and> \<bar>- 2 :: int\<bar> \<le> 6 \<and> \<bar>- 3 :: int\<bar> \<le> 6
   \<and> align_reference_for_indel
        \<lparr>chromosome = ''chr1'', position = 12, reference_bases = ''ACG'', alternate_bases = ''A''\<rparr>
        \<lparr>interval_start = 10, interval_end = 16\<rparr>
        \<lparr>reference = [[Fin 1], [Fin 2], [Fin 3], [Fin 4], [Fin 5], [Fin 6]],
         alternate = [[Fin 1], [Fin 2], [Fin 5], [Fin 6], [Fin 7], [Fin 8]]\<rparr> 2
      = Some \<lparr>reference = [[Fin 1], [Fin 2], [Fin 5], [Fin 6], [NaN], [NaN]],
              alternate = [[Fin 1], [Fin 2], [Fin 5], [Fin 6], [Fin 7], [Fin 8]]\<rparr>
   \<and> align_reference_for_indel
        \<lparr>chromosome = ''chr1'', position = 12, reference_bases = ''A'', alternate_bases = ''ACG''\<rparr>
        \<lparr>interval_start = 10, interval_end = 16\<rparr>
        \<lparr>reference = [[Fin 1], [Fin 2], [Fin 3], [Fin 4], [Fin 5], [Fin 6]],
         alternate = [[Fin 1], [Fin 2], [Fin 9], [Fin 9], [Fin 3], [Fin 4]]\<rparr> (- 2)
      = Some \<lparr>reference = [[Fin 1], [Fin 2], [NaN], [NaN], [Fin 3], [Fin 4]],
              alternate = [[Fin 1], [Fin 2], [Fin 9], [Fin 9], [Fin 3], [Fin 4]]\<rparr>
   \<and> align_reference_for_indel
        \<lparr>chromosome = ''chr1'', position = 14, reference_bases = ''A'', alternate_bases = ''ACGT''\<rparr>
        \<lparr>interval_start = 10, interval_end = 16\<rparr>
        \<lparr>reference = [[Fin 1], [Fin 2], [Fin 3], [Fin 4], [Fin 5], [Fin 6]],
         alternate = [[Fin 1], [Fin 2], [Fin 3], [Fin 4], [Fin 9], [Fin 9]]\<rparr> (- 3)
      = Some \<lparr>reference = [[Fin 1], [Fin 2], [Fin 3], [Fin 4], [NaN], [NaN]],
              alternate = [[Fin 1], [Fin 2], [Fin 3], [Fin 4], [Fin 9], [Fin 9]]\<rparr>"
proof -
  have del: "align_reference_for_indel
        \<lparr>chromosome = ''chr1'', position = 12, reference_bases = ''ACG'', alternate_bases = ''A''\<rparr>
        \<lparr>interval_start = 10, interval_end = 16\<rparr>
        \<lparr>reference = [[Fin 1], [Fin 2], [Fin 3], [Fin 4], [Fin 5], [Fin 6]],
         alternate = [[Fin 1], [Fin 2], [Fin 5], [Fin 6], [Fin 7], [Fin 8]]\<rparr> 2
      = Some \<lparr>reference = [[Fin 1], [Fin 2], [Fin 5], [Fin 6], [NaN], [NaN]],
              alternate = [[Fin 1], [Fin 2], [Fin 5], [Fin 6], [Fin 7], [Fin 8]]\<rparr>"
    by code_simp
  have ins: "align_reference_for_indel
        \<lparr>chromosome = ''chr1'', position = 12, reference_bases = ''A'', alternate_bases = ''ACG''\<rparr>
        \<lparr>interval_start = 10, interval_end = 16\<rparr>
        \<lparr>reference = [[Fin 1], [Fin 2], [Fin 3], [Fin 4], [Fin 5], [Fin 6]],
         alternate = [[Fin 1], [Fin 2], [Fin 9], [Fin 9], [Fin 3], [Fin 4]]\<rparr> (- 2)
      = Some \<lparr>reference = [[Fin 1], [Fin 2], [NaN], [NaN], [Fin 3], [Fin 4]],
              alternate = [[Fin 1], [Fin 2], [Fin 9], [Fin 9], [Fin 3], [Fin 4]]\<rparr>"
    by code_simp
  have past: "align_reference_for_indel
        \<lparr>chromosome = ''chr1'', position = 14, reference_bases = ''A'', alternate_bases = ''ACGT''\<rparr>
        \<lparr>interval_start = 10, interval_end = 16\<rparr>
        \<lparr>reference = [[Fin 1], [Fin 2], [Fin 3], [Fin 4], [Fin 5], [Fin 6]],
         alternate = [[Fin 1], [Fin 2], [Fin 3], [Fin 4], [Fin 9], [Fin 9]]\<rparr> (- 3)
      = Some \<lparr>reference = [[Fin 1], [Fin 2], [Fin 3], [Fin 4], [NaN], [NaN]],
              alternate = [[Fin 1], [Fin 2], [Fin 3], [Fin 4], [Fin 9], [Fin 9]]\<rparr>"
    by code_simp
  have h: "(2 :: int) = position \<lparr>chromosome = ''chr1'', position = 12,
                 reference_bases = ''ACG'', alternate_bases = ''A''\<rparr>
             - interval_start \<lparr>interval_start = 10, interval_end = 16\<rparr>"
    "(6 :: int) = interval_end \<lparr>interval_start = 10, interval_end = 16\<rparr>
             - interval_start \<lparr>interval_start = 10, interval_end = 16\<rparr>"
    "int (length (reference \<lparr>reference = [[Fin 1], [Fin 2], [Fin 3], [Fin 4], [Fin 5], [Fin 6]],
         alternate = [[Fin 1], [Fin 2], [Fin 5], [Fin 6], [Fin 7], [Fin 8]]\<rparr>)) = 6"
    "(0 :: int) \<le> 2" "\<bar>2 :: int\<bar> \<le> 6"
    by simp_all
  have h': "(4 :: int) = position \<lparr>chromosome = ''chr1'', position = 14,
                 reference_bases = ''A'', alternate_bases = ''ACGT''\<rparr>
             - interval_start \<lparr>interval_start = 10, interval_end = 16\<rparr>"
    "(6 :: int) = interval_end \<lparr>interval_start = 10, interval_end = 16\<rparr>
             - interval_start \<lparr>interval_start = 10, interval_end = 16\<rparr>"
    "int (length (reference \<lparr>reference = [[Fin 1], [Fin 2], [Fin 3], [Fin 4], [Fin 5], [Fin 6]],
         alternate = [[Fin 1], [Fin 2], [Fin 3], [Fin 4], [Fin 9], [Fin 9]]\<rparr>)) = 6"
    "(0 :: int) \<le> 4" "\<bar>- 3 :: int\<bar> \<le> 6"
    by simp_all
  note indel_alignment [OF h] indel_alignment [OF h']
  with del ins past show ?thesis by simp
qed

text \<open>
  A deletion of five bases in an interval of four positions: the bound
  \<open>end - start - length_alter\<close> of the first slice is \<open>-1\<close>, which Python counts from the
  end, so the assignment \<open>values[1:3] = values[6:4]\<close> has two rows on the left and none on
  the right, and numpy raises \<open>ValueError\<close>. Nothing is shifted and nothing is filled.
\<close>

theorem indel_alignment_counterexample:
  "align_reference_for_indel
        \<lparr>chromosome = ''chr1'', position = 1, reference_bases = ''ACGTAC'',
         alternate_bases = ''A''\<rparr>
        \<lparr>interval_start = 0, interval_end = 4\<rparr>
        \<lparr>reference = [[Fin 1], [Fin 2], [Fin 3], [Fin 4]],
         alternate = [[Fin 1], [Fin 2], [Fin 3], [Fin 4]]\<rparr> 5
      = None"
  by code_simp

text \<open>
  Claim C9, as amended. Whenever the aligner returns, the alternate matrix is the one
  it was given and the reference matrix keeps its number of rows. The rows of the
  reference strictly before the mutation offset keep their values when, for a deletion,
  the deleted span ends inside the interval (\<open>offset + length_alter \<le> interval length\<close>);
  an insertion and a substitution need no condition.
\<close>

theorem aligner_frame:
  assumes "align_reference_for_indel variant interval vout length_alter = Some vout'"
    and "off = position variant - interval_start interval"
    and "len = interval_end interval - interval_start interval"
  shows "alternate vout' = alternate vout \<and>
         length (reference vout') = length (reference vout) \<and>
         ((0 < length_alter \<longrightarrow> off + length_alter \<le> len) \<longrightarrow>
          (\<forall>i. 0 \<le> i \<and> i < off \<and> i < int (length (reference vout)) \<longrightarrow>
               reference vout' ! nat i = reference vout ! nat i))"
proof -
  define vals where "vals = reference vout"
  consider (del) "0 < length_alter" | (ins) "length_alter < 0" | (snv) "length_alter = 0"
    by linarith
  then show ?thesis
  proof cases
    case del
    then obtain vals1 where a1: "slice_assign vals off (len - length_alter)
          (slice vals (off + length_alter) len) = Some vals1"
      and v': "vout' = vout\<lparr>reference := slice_assign_nan vals1 (len - length_alter) len\<rparr>"
      using assms(1)
      by (auto simp: align_reference_for_indel_def Let_def assms(2,3) vals_def
          split: bind_splits)
    have l1: "length vals1 = length vals" using slice_assign_frame(1) [OF a1] .
    have "reference vout' ! nat i = vals ! nat i"
      if fit: "off + length_alter \<le> len" and i: "0 \<le> i" "i < off" "i < int (length vals)" for i
    proof -
      have "nat i < py_index (int (length vals)) off"
        using py_index_lower [of off off "length vals"] i by linarith
      then have "vals1 ! nat i = vals ! nat i" using slice_assign_frame(2) [OF a1] by simp
      moreover have "nat i < py_index (int (length vals1)) (len - length_alter)"
        using py_index_lower [of off "len - length_alter" "length vals1"] i fit l1 by linarith
      ultimately show ?thesis
        using slice_assign_nan_frame(2) [of "nat i" vals1 "len - length_alter" len] v' by simp
    qed
    then show ?thesis
      using v' l1 del slice_assign_nan_frame(1) [of vals1 "len - length_alter" len]
      by (simp add: vals_def)
  next
    case ins
    then obtain vals1 where a1: "slice_assign vals (off - length_alter) len
          (slice vals off (len + length_alter)) = Some vals1"
      and v': "vout' = vout\<lparr>reference := slice_assign_nan vals1 off (off - length_alter)\<rparr>"
      using assms(1)
      by (auto simp: align_reference_for_indel_def Let_def assms(2,3) vals_def
          split: bind_splits)
    have l1: "length vals1 = length vals" using slice_assign_frame(1) [OF a1] .
    have "reference vout' ! nat i = vals ! nat i"
      if i: "0 \<le> i" "i < off" "i < int (length vals)" for i
    proof -
      have "nat i < py_index (int (length vals)) (off - length_alter)"
        using py_index_lower [of off "off - length_alter" "length vals"] i ins by linarith
      then have "vals1 ! nat i = vals ! nat i" using slice_assign_frame(2) [OF a1] by simp
      moreover have "nat i < py_index (int (length vals1)) off"
        using py_index_lower [of off off "length vals1"] i l1 by linarith
      ultimately show ?thesis
        using slice_assign_nan_frame(2) [of "nat i" vals1 off "off - length_alter"] v' by simp
    qed
    then show ?thesis
      using v' l1 slice_assign_nan_frame(1) [of vals1 off "off - length_alter"]
      by (simp add: vals_def)
  next
    case snv
    then show ?thesis using assms(1) by (simp add: align_reference_for_indel_def)
  qed
qed

text \<open>
  A deletion of one base at offset \<open>3\<close> of five positions: rows \<open>0\<close> to \<open>2\<close> are kept.
\<close>

theorem aligner_frame_witness:
  "align_reference_for_indel
        \<lparr>chromosome = ''chr2'', position = 103, reference_bases = ''AC'', alternate_bases = ''A''\<rparr>
        \<lparr>interval_start = 100, interval_end = 105\<rparr>
        \<lparr>reference = [[Fin 1], [Fin 2], [Fin 3], [Fin 4], [Fin 5]],
         alternate = [[Fin 1], [Fin 2], [Fin 3], [Fin 5], [Fin 6]]\<rparr> 1
      = Some \<lparr>reference = [[Fin 1], [Fin 2], [Fin 3], [Fin 5], [NaN]],
              alternate = [[Fin 1], [Fin 2], [Fin 3], [Fin 5], [Fin 6]]\<rparr>
   \<and> (3 :: int) + 1 \<le> 5
   \<and> [[Fin 1], [Fin 2], [Fin 3], [Fin 5], [NaN]] ! nat 2 = [Fin 3]"
proof -
  have ev: "align_reference_for_indel
        \<lparr>chromosome = ''chr2'', position = 103, reference_bases = ''AC'', alternate_bases = ''A''\<rparr>
        \<lparr>interval_start = 100, interval_end = 105\<rparr>
        \<lparr>reference = [[Fin 1], [Fin 2], [Fin 3], [Fin 4], [Fin 5]],
         alternate = [[Fin 1], [Fin 2], [Fin 3], [Fin 5], [Fin 6]]\<rparr> 1
      = Some \<lparr>reference = [[Fin 1], [Fin 2], [Fin 3], [Fin 5], [NaN]],
              alternate = [[Fin 1], [Fin 2], [Fin 3], [Fin 5], [Fin 6]]\<rparr>"
    by code_simp
  from aligner_frame [OF ev, of 3 5] ev show ?thesis by simp
qed

text \<open>
  Without the condition the rows before the offset are not all kept: a deletion of
  three bases at offset \<open>2\<close> of an interval of four positions fills rows \<open>1\<close> to \<open>3\<close>
  with not-a-number, and row \<open>1\<close> lies before the offset.
\<close>

theorem aligner_frame_counterexample:
  "align_reference_for_indel
        \<lparr>chromosome = ''chr1'', position = 2, reference_bases = ''ACGT'', alternate_bases = ''A''\<rparr>
        \<lparr>interval_start = 0, interval_end = 4\<rparr>
        \<lparr>reference = [[Fin 1], [Fin 2], [Fin 3], [Fin 4]],
         alternate = [[Fin 1], [Fin 2], [Fin 3], [Fin 4]]\<rparr> 3
      = Some \<lparr>reference = [[Fin 1], [NaN], [NaN], [NaN]],
              alternate = [[Fin 1], [Fin 2], [Fin 3], [Fin 4]]\<rparr>
   \<and> (1 :: int) < 2 - 0
   \<and> [[Fin 1], [NaN], [NaN], [NaN]] ! 1 \<noteq> [[Fin 1], [Fin 2], [Fin 3], [Fin 4]] ! 1"
  by code_simp

section \<open>The aligner and the window scores together\<close>

text \<open>
  Claim C3, on a failing input. Reference \<open>1\<close> and alternate \<open>3\<close> at each of six positions
  of one channel, and an insertion of one base at offset \<open>2\<close>: the aligner marks row \<open>2\<close>
  of the reference not-a-number. With window size \<open>1\<close> and \<open>epsilon = 1\<close> the mean ratio of
  each of the windows \<open>3\<close>, \<open>4\<close> and \<open>5\<close> is \<open>3 / (1 + 1) - 1 = 1/2\<close>, and their spans hold
  no not-a-number sample. \<open>compute_window_scores\<close> returns not-a-number for them, because
  the cumulative sum taken from row \<open>0\<close> is not-a-number from row \<open>2\<close> on, and the Region
  Caller then finds no region after the insertion. Every value and every operation of
  this evaluation is exact in \<open>float64\<close>.
\<close>

theorem insertion_blinds_later_windows:
  "align_reference_for_indel
        \<lparr>chromosome = ''chr1'', position = 12, reference_bases = ''A'', alternate_bases = ''AC''\<rparr>
        \<lparr>interval_start = 10, interval_end = 16\<rparr>
        \<lparr>reference = [[Fin 1], [Fin 1], [Fin 1], [Fin 1], [Fin 1], [Fin 1]],
         alternate = [[Fin 3], [Fin 3], [Fin 3], [Fin 3], [Fin 3], [Fin 3]]\<rparr> (- 1)
      = Some \<lparr>reference = [[Fin 1], [Fin 1], [NaN], [Fin 1], [Fin 1], [Fin 1]],
              alternate = [[Fin 3], [Fin 3], [Fin 3], [Fin 3], [Fin 3], [Fin 3]]\<rparr>
   \<and> compute_window_scores [[Fin 3], [Fin 3], [Fin 3], [Fin 3], [Fin 3], [Fin 3]]
        [[Fin 1], [Fin 1], [NaN], [Fin 1], [Fin 1], [Fin 1]] 0 6 1 (Fin 1)
      = Some [[Fin (1 / 2)], [Fin (1 / 2)], [NaN], [NaN], [NaN], [NaN]]
   \<and> map (\<lambda>k. naive_window_score [[Fin 3], [Fin 3], [Fin 3], [Fin 3], [Fin 3], [Fin 3]]
               [[Fin 1], [Fin 1], [NaN], [Fin 1], [Fin 1], [Fin 1]] k 1 (Fin 1) 0)
        [0, 1, 2, 3, 4, 5]
      = [Fin (1 / 2), Fin (1 / 2), NaN, Fin (1 / 2), Fin (1 / 2), Fin (1 / 2)]
   \<and> call_regions (column 0 [[Fin (1 / 2)], [Fin (1 / 2)], [NaN], [NaN], [NaN], [NaN]])
        (Fin (1 / 4)) 1 1 = Some [(0, 1)]"
  by code_simp

section \<open>Properties of the channel loop\<close>













end
